theory Spec2Isabelle
  imports Main "HOL-Library.AList"
begin

section \<open>Values, objects and the heap\<close>

text \<open>
  The values the wrapper sees at run time. \<open>Err name message\<close> is an instance of
  \<open>Error\<close> or of one of its subclasses (\<open>err instanceof Error\<close> holds exactly for these
  values). \<open>Ref r\<close> is a reference to a cell of the heap: an ordinary object or a function
  that existed before wrapping. \<open>WRef i\<close> is a reference to a function object created by
  \<open>wrapHandler\<close>, and \<open>WProto i\<close> the prototype object that the function expression
  \<open>function wrappedHandler\<close> creates together with wrapper \<open>i\<close>.
  Numbers are the integer-valued ones.
\<close>

datatype val =
    Undefined
  | Null
  | Bool bool
  | Num int
  | Str string
  | Err string string
  | Ref nat
  | WRef nat
  | WProto nat

text \<open>
  A property descriptor as \<open>Object.getOwnPropertyDescriptor\<close> returns it: a data property
  (value, writable, enumerable, configurable) or an accessor property (enumerable,
  configurable), whose descriptor has no \<open>value\<close> field.
\<close>

datatype desc =
    Data val bool bool bool
  | Accessor bool bool

record fn_info =
  fname :: string
  flength :: nat

text \<open>
  A heap cell: the own properties in key order (for a function: those other than
  \<open>length\<close> and \<open>name\<close>, which are kept in \<open>fn\<close>), the prototype link
  (\<open>None\<close> is \<open>null\<close>), and the function part when the object is callable.
\<close>

record cell =
  props :: "(string \<times> desc) list"
  proto :: "nat option"
  fn :: "fn_info option"

text \<open>
  A function object created by \<open>wrapHandler\<close>: its \<open>name\<close> and \<open>length\<close>, the
  properties copied from the original, and the original it delegates to. Being made by a
  function expression it also owns the non-configurable property \<open>prototype\<close>, whose
  value is \<open>WProto i\<close>.
\<close>

record wrapper =
  wname :: string
  wlength :: nat
  wprops :: "(string \<times> desc) list"
  worig :: val

datatype diag =
    ErrWrapNonFunction val
  | WarnInsufficientArgs nat nat string
  | ErrLastArgNotFunction string string
  | WarnNextCalledTwice string
  | ErrClassNonFunction val
  | WarnNoPrototype string
  | ErrFailedToWrap string string

text \<open>
  The heap together with the console: the cells that existed before wrapping, the
  function objects \<open>wrapHandler\<close> has created, and the diagnostics printed so far.
  \<open>text_of\<close> is what the conversion \<open>String(v)\<close> does with a value that is not a
  primitive (and with a number that is printed with an exponent): the conversion runs
  the object's own \<open>toString\<close> or \<open>valueOf\<close>, code outside this file, and either
  returns a text (\<open>Inr\<close>) or throws a value (\<open>Inl\<close>), as it does with a \<open>TypeError\<close>
  for an object that has neither method, such as \<open>Object.create(null)\<close>.
\<close>

record world =
  cells :: "cell list"
  wrappers :: "wrapper list"
  diags :: "diag list"
  text_of :: "val \<Rightarrow> val + string"

text \<open>\<open>Object.prototype\<close> is the cell at reference 0 of every heap.\<close>

definition ObjectPrototype :: nat where
  "ObjectPrototype = 0"

definition empty_cell :: cell where
  "empty_cell = \<lparr>props = [], proto = None, fn = None\<rparr>"

text \<open>
  Reading a cell. A reference outside the heap cannot exist in the program; the
  model reads it as an object with no properties and no prototype.
\<close>

definition cell_at :: "world \<Rightarrow> nat \<Rightarrow> cell" where
  "cell_at s r = (if r < length (cells s) then cells s ! r else empty_cell)"

text \<open>\<open>typeof fn === "function"\<close> (source lines 29--31).\<close>

fun isFunction :: "world \<Rightarrow> val \<Rightarrow> bool" where
  "isFunction s (Ref r) = (fn (cell_at s r) \<noteq> None)"
| "isFunction s (WRef i) = True"
| "isFunction s v = False"

fun typeof :: "world \<Rightarrow> val \<Rightarrow> string" where
  "typeof s Undefined = ''undefined''"
| "typeof s Null = ''object''"
| "typeof s (Bool b) = ''boolean''"
| "typeof s (Num n) = ''number''"
| "typeof s (Str t) = ''string''"
| "typeof s (Err n m) = ''object''"
| "typeof s (Ref r) = (if fn (cell_at s r) \<noteq> None then ''function'' else ''object'')"
| "typeof s (WRef i) = ''function''"
| "typeof s (WProto i) = ''object''"

text \<open>Truthiness, as \<open>!x\<close> and \<open>x && y\<close> test it.\<close>

fun truthy :: "val \<Rightarrow> bool" where
  "truthy Undefined = False"
| "truthy Null = False"
| "truthy (Bool b) = b"
| "truthy (Num n) = (n \<noteq> 0)"
| "truthy (Str t) = (t \<noteq> [])"
| "truthy v = True"

text \<open>Decimal digits of a number, for \<open>String(n)\<close>.\<close>

fun digits :: "nat \<Rightarrow> string" where
  "digits n = (if n < 10 then [''0123456789'' ! n]
               else digits (n div 10) @ [''0123456789'' ! (n mod 10)])"

text \<open>
  \<open>String(v)\<close>: the text (\<open>Inr\<close>), or the value the conversion throws (\<open>Inl\<close>). A
  primitive has its fixed text, an integer below ten to the power 21 in magnitude its
  decimal digits; for every other value (an object, a function, a larger number) the
  outcome is that of \<open>text_of\<close>.
\<close>

fun js_String :: "world \<Rightarrow> val \<Rightarrow> val + string" where
  "js_String s Undefined = Inr ''undefined''"
| "js_String s Null = Inr ''null''"
| "js_String s (Bool b) = Inr (if b then ''true'' else ''false'')"
| "js_String s (Num n) =
     (if - 1000000000000000000000 < n \<and> n < 1000000000000000000000
      then Inr (if n < 0 then ''-'' @ digits (nat (- n)) else digits (nat n))
      else text_of s (Num n))"
| "js_String s (Str t) = Inr t"
| "js_String s v = text_of s v"

text \<open>A completion: a normal return or a thrown value.\<close>

datatype 'a completion = Normal 'a | Throw val

section \<open>The wrapped handler at run time (source lines 60--132)\<close>

text \<open>
  The original handler is arbitrary code. What the wrapper can observe of one run of it is
  kept in a script: the steps it takes before it returns (calls of the continuation it was
  handed, which is the guarded one, and any other work), and how it ends: it returns a
  value, it throws, or it returns a promise, which after further steps is fulfilled or
  rejected. An \<open>async\<close> function that throws before its first \<open>await\<close> is a script that
  returns a promise rejected with no further steps.
\<close>

datatype action = CallNext "val list" | Work

datatype settle = Resolve val | Reject val

datatype outcome =
    Returns val
  | Raises val
  | ReturnsPromise "action list" settle

record script =
  sync :: "action list"
  outcome :: outcome

record original =
  oname :: string
  olength :: nat
  body :: "val list \<Rightarrow> script"

text \<open>
  The state one wrapper works on: \<open>hasCalledNext\<close> is the variable declared at source
  line 56, in the closure of \<open>wrapHandler\<close>; \<open>calls\<close> records every call that reaches a
  continuation supplied by the host (which continuation, with which arguments), in
  order; \<open>console\<close> the diagnostics; \<open>applied\<close> counts the runs of the original.
  The host's continuation is an Express \<open>NextFunction\<close>: it takes the call and returns
  \<open>undefined\<close>.
\<close>

record wstate =
  hasCalledNext :: bool
  calls :: "(val \<times> val list) list"
  console :: "diag list"
  applied :: nat

text \<open>The promise the wrapper returns (\<open>result.catch(...)\<close>), not yet settled.\<close>

record pending =
  pnext :: val
  pacts :: "action list"
  psettle :: settle

datatype ret = Value val | Pending pending

datatype settled = Resolved val | Rejected val

text \<open>\<open>args[args.length - 1]\<close>: \<open>undefined\<close> when there is no argument.\<close>

definition last_arg :: "val list \<Rightarrow> val" where
  "last_arg args = (if args = [] then Undefined else last args)"

text \<open>The guarded continuation \<open>wrappedNext\<close> (source lines 87--98).\<close>

definition wrappedNext :: "original \<Rightarrow> val \<Rightarrow> val list \<Rightarrow> wstate \<Rightarrow> wstate" where
  "wrappedNext f next nextArgs st =
     (if hasCalledNext st
      then st\<lparr>console := console st @ [WarnNextCalledTwice (oname f)]\<rparr>
      else st\<lparr>hasCalledNext := True, calls := calls st @ [(next, nextArgs)]\<rparr>)"

fun run_action :: "original \<Rightarrow> val \<Rightarrow> action \<Rightarrow> wstate \<Rightarrow> wstate" where
  "run_action f next (CallNext nextArgs) st = wrappedNext f next nextArgs st"
| "run_action f next Work st = st"

fun run_actions :: "original \<Rightarrow> val \<Rightarrow> action list \<Rightarrow> wstate \<Rightarrow> wstate" where
  "run_actions f next [] st = st"
| "run_actions f next (a # as) st = run_actions f next as (run_action f next a st)"

text \<open>
  \<open>errorToPass\<close> (source lines 109--112 and 123--126): an \<open>Error\<close> is passed as it
  is, anything else is put into a new \<open>Error\<close> whose message is built with
  \<open>String(err)\<close>. When that conversion throws, so does the expression (\<open>Inl\<close>).
\<close>

definition errorToPass :: "world \<Rightarrow> string \<Rightarrow> val \<Rightarrow> val + val" where
  "errorToPass h prefix err =
     (case err of
        Err n m \<Rightarrow> Inr err
      | _ \<Rightarrow> (case js_String h err of
                 Inl thrown \<Rightarrow> Inl thrown
               | Inr t \<Rightarrow> Inr (Err ''Error'' (prefix @ t))))"

text \<open>
  The body shared by the \<open>catch\<close> block and the rejection callback (source lines
  108--114 and 122--128). It ends normally, or with what \<open>String(err)\<close> has thrown,
  the continuation then not having been called.
\<close>

definition deliver_failure ::
  "world \<Rightarrow> string \<Rightarrow> original \<Rightarrow> val \<Rightarrow> val \<Rightarrow> wstate \<Rightarrow> unit completion \<times> wstate" where
  "deliver_failure h prefix f next err st =
     (if \<not> hasCalledNext st then
        (case errorToPass h prefix err of
           Inl thrown \<Rightarrow> (Throw thrown, st)
         | Inr e \<Rightarrow> (Normal (), wrappedNext f next [e] st))
      else (Normal (), st))"

text \<open>
  One call of the wrapper, up to its return (source lines 60--132). The original runs
  with the guarded continuation in place of its last argument. What is thrown inside the
  \<open>catch\<close> block leaves the wrapper.
\<close>

definition wrappedHandler ::
  "world \<Rightarrow> original \<Rightarrow> val list \<Rightarrow> wstate \<Rightarrow> ret completion \<times> wstate" where
  "wrappedHandler h f args st0 =
     (let st1 = st0\<lparr>hasCalledNext := False\<rparr>;
          st2 = (if length args < olength f
                 then st1\<lparr>console := console st1 @
                        [WarnInsufficientArgs (olength f) (length args) (oname f)]\<rparr>
                 else st1);
          next = last_arg args
      in if \<not> isFunction h next
         then (Normal (Value Undefined),
               st2\<lparr>console := console st2 @
                     [ErrLastArgNotFunction (oname f) (typeof h next)]\<rparr>)
         else
           let sc = body f args;
               st3 = run_actions f next (sync sc) (st2\<lparr>applied := applied st2 + 1\<rparr>)
           in case outcome sc of
                Returns v \<Rightarrow> (Normal (Value v), st3)
              | ReturnsPromise acts how \<Rightarrow>
                  (Normal (Pending \<lparr>pnext = next, pacts = acts, psettle = how\<rparr>), st3)
              | Raises err \<Rightarrow>
                  (case deliver_failure h ''Non-Error thrown synchronously: '' f next err st3 of
                     (Throw thrown, st4) \<Rightarrow> (Throw thrown, st4)
                   | (Normal u, st4) \<Rightarrow> (Normal (Value Undefined), st4)))"

text \<open>
  The rest of an invocation that returned a promise: the original's remaining steps, then
  the promise settles and, on rejection, the callback of source lines 107--117 runs. The
  result is how the promise returned by the wrapper settles: it is rejected with what the
  callback throws.
\<close>

definition settle_pending ::
  "world \<Rightarrow> original \<Rightarrow> pending \<Rightarrow> wstate \<Rightarrow> settled \<times> wstate" where
  "settle_pending h f p st =
     (let st1 = run_actions f (pnext p) (pacts p) st
      in case psettle p of
           Resolve v \<Rightarrow> (Resolved v, st1)
         | Reject err \<Rightarrow>
             (case deliver_failure h ''Non-Error thrown/rejected: '' f (pnext p) err st1 of
                (Throw thrown, st2) \<Rightarrow> (Rejected thrown, st2)
              | (Normal u, st2) \<Rightarrow> (Resolved Undefined, st2)))"

text \<open>
  One invocation from its call to the settling of its promise, with no other call of the
  same wrapper in between.
\<close>

definition invoke_alone :: "world \<Rightarrow> original \<Rightarrow> val list \<Rightarrow> wstate \<Rightarrow> wstate" where
  "invoke_alone h f args st =
     (case wrappedHandler h f args st of
        (Normal (Pending p), st1) \<Rightarrow> snd (settle_pending h f p st1)
      | (r, st1) \<Rightarrow> st1)"

text \<open>The arguments of the continuation calls a list of steps makes, in order.\<close>

fun next_calls :: "action list \<Rightarrow> val list list" where
  "next_calls [] = []"
| "next_calls (CallNext nextArgs # as) = nextArgs # next_calls as"
| "next_calls (Work # as) = next_calls as"

text \<open>All the steps of a script, before and after it returns.\<close>

definition steps :: "script \<Rightarrow> action list" where
  "steps sc = sync sc @ (case outcome sc of ReturnsPromise acts how \<Rightarrow> acts | _ \<Rightarrow> [])"

text \<open>
  Two invocations of one wrapper: the first is called, the second is called while the
  promise of the first is still pending, then the first one's promise settles.
\<close>

definition call_between ::
  "world \<Rightarrow> original \<Rightarrow> val list \<Rightarrow> val list \<Rightarrow> wstate \<Rightarrow> wstate" where
  "call_between h f args1 args2 st =
     (case wrappedHandler h f args1 st of
        (Normal (Pending p), st1) \<Rightarrow>
          snd (settle_pending h f p (snd (wrappedHandler h f args2 st1)))
      | (r, st1) \<Rightarrow> snd (wrappedHandler h f args2 st1))"

section \<open>Wrapping one function (source lines 49--166)\<close>

text \<open>
  The own properties of a function other than \<open>length\<close> and \<open>name\<close>. A function
  created by \<open>wrapHandler\<close> owns \<open>prototype\<close> before everything copied onto it.
\<close>

fun own_props :: "world \<Rightarrow> val \<Rightarrow> (string \<times> desc) list" where
  "own_props s (Ref r) = props (cell_at s r)"
| "own_props s (WRef i) =
     (''prototype'', Data (WProto i) True False False) #
     (if i < length (wrappers s) then wprops (wrappers s ! i) else [])"
| "own_props s v = []"

text \<open>\<open>Object.getOwnPropertyNames\<close>: every key once.\<close>

definition own_keys :: "(string \<times> desc) list \<Rightarrow> string list" where
  "own_keys ps = remdups (map fst ps)"

fun fn_name :: "world \<Rightarrow> val \<Rightarrow> string" where
  "fn_name s (Ref r) = (case fn (cell_at s r) of Some i \<Rightarrow> fname i | None \<Rightarrow> [])"
| "fn_name s (WRef i) = (if i < length (wrappers s) then wname (wrappers s ! i) else [])"
| "fn_name s v = []"

fun fn_length :: "world \<Rightarrow> val \<Rightarrow> nat" where
  "fn_length s (Ref r) = (case fn (cell_at s r) of Some i \<Rightarrow> flength i | None \<Rightarrow> 0)"
| "fn_length s (WRef i) = (if i < length (wrappers s) then wlength (wrappers s ! i) else 0)"
| "fn_length s v = 0"

text \<open>
  \<open>Object.defineProperty(wrapped, prop, {...descriptor, configurable: true, writable: true})\<close>
  (source lines 156--160) on the properties copied so far. The descriptor of an accessor,
  extended by \<open>writable\<close>, is not a valid descriptor; and \<open>wrapped\<close>, made by a function
  expression, owns a non-configurable \<open>prototype\<close>, which cannot be redefined as
  configurable. Both raise a \<open>TypeError\<close>.
\<close>

fun define_on_wrapped ::
  "(string \<times> desc) list \<Rightarrow> string \<Rightarrow> desc \<Rightarrow> val + (string \<times> desc) list" where
  "define_on_wrapped acc prop (Accessor e c) =
     Inl (Err ''TypeError'' ''Invalid property descriptor'')"
| "define_on_wrapped acc prop (Data v w e c) =
     (if prop = ''prototype'' then Inl (Err ''TypeError'' ''Cannot redefine property: prototype'')
      else Inr (AList.update prop (Data v True e True) acc))"

text \<open>The copying loop of source lines 151--163.\<close>

fun copy_props ::
  "(string \<times> desc) list \<Rightarrow> string list \<Rightarrow> (string \<times> desc) list \<Rightarrow> val + (string \<times> desc) list"
  where
  "copy_props src [] acc = Inr acc"
| "copy_props src (prop # rest) acc =
     (if prop \<noteq> ''length'' \<and> prop \<noteq> ''name'' then
        (case map_of src prop of
           None \<Rightarrow> copy_props src rest acc
         | Some descriptor \<Rightarrow>
             (case define_on_wrapped acc prop descriptor of
                Inl err \<Rightarrow> Inl err
              | Inr acc' \<Rightarrow> copy_props src rest acc'))
      else copy_props src rest acc)"

definition wrapHandler :: "world \<Rightarrow> val \<Rightarrow> val completion \<times> world" where
  "wrapHandler s f =
     (if \<not> isFunction s f then (Normal f, s\<lparr>diags := diags s @ [ErrWrapNonFunction f]\<rparr>)
      else
        let originalName = (if fn_name s f = [] then ''handler'' else fn_name s f);
            originalProps = own_props s f
        in case copy_props originalProps (own_keys originalProps) [] of
             Inl err \<Rightarrow> (Throw err, s)
           | Inr ps \<Rightarrow>
               (Normal (WRef (length (wrappers s))),
                s\<lparr>wrappers := wrappers s @
                      [\<lparr>wname = ''wrapped_'' @ originalName, wlength = fn_length s f,
                        wprops = ps, worig = f\<rparr>]\<rparr>))"

section \<open>Wrapping the members of a class (source lines 175--248)\<close>

definition set_prop :: "nat \<Rightarrow> string \<Rightarrow> desc \<Rightarrow> world \<Rightarrow> world" where
  "set_prop p key d s =
     s\<lparr>cells := (cells s)[p := (cells s ! p)\<lparr>props := AList.update key d (props (cells s ! p))\<rparr>]\<rparr>"

text \<open>
  One round of the loop of source lines 209--236. \<open>Object.defineProperty(prototype, key,
  {...descriptor, value: wrappedMethod})\<close> keeps every attribute and changes the value; on
  an ordinary object it raises a \<open>TypeError\<close> exactly when the property is neither
  configurable nor writable and the value is a different one. Whatever is thrown inside
  the \<open>try\<close> is reported and the loop goes on.
\<close>

definition process_key :: "string \<Rightarrow> nat \<Rightarrow> string \<Rightarrow> world \<Rightarrow> world" where
  "process_key cname p key s =
     (if key = ''constructor'' then s
      else case map_of (props (cell_at s p)) key of
             Some (Data v w e c) \<Rightarrow>
               if isFunction s v then
                 (case wrapHandler s v of
                    (Throw err, s1) \<Rightarrow> s1\<lparr>diags := diags s1 @ [ErrFailedToWrap key cname]\<rparr>
                  | (Normal wrappedMethod, s1) \<Rightarrow>
                      if \<not> c \<and> \<not> w \<and> wrappedMethod \<noteq> v
                      then s1\<lparr>diags := diags s1 @ [ErrFailedToWrap key cname]\<rparr>
                      else set_prop p key (Data wrappedMethod w e c) s1)
               else s
           | _ \<Rightarrow> s)"

fun process_keys :: "string \<Rightarrow> nat \<Rightarrow> string list \<Rightarrow> world \<Rightarrow> world" where
  "process_keys cname p [] s = s"
| "process_keys cname p (key # keys) s = process_keys cname p keys (process_key cname p key s)"

lemma wrapHandler_cells: "cells (snd (wrapHandler s f)) = cells s"
  by (simp add: wrapHandler_def Let_def split: sum.splits)

lemma process_key_length: "length (cells (process_key cname p key s)) = length (cells s)"
proof -
  have "\<And>r s1. wrapHandler s f = (r, s1) \<Longrightarrow> cells s1 = cells s" for f
    using wrapHandler_cells [of s f] by simp
  then show ?thesis
    by (auto simp: process_key_def set_prop_def
        split: option.splits desc.splits prod.splits completion.splits)
qed

lemma process_keys_length: "length (cells (process_keys cname p keys s)) = length (cells s)"
  by (induction keys arbitrary: s) (simp_all add: process_key_length)

text \<open>
  \<open>processPrototype\<close> (source lines 200--243). The set \<open>processedPrototypes\<close> is the
  list of the levels processed so far, in order; it is returned with the heap.
\<close>

function processPrototype :: "string \<Rightarrow> nat \<Rightarrow> world \<times> nat list \<Rightarrow> world \<times> nat list" where
  "processPrototype cname p (s, visited) =
     (if p \<in> set visited then (s, visited)
      else
        let s1 = process_keys cname p (own_keys (props (cell_at s p))) s
        in case proto (cell_at s1 p) of
             None \<Rightarrow> (s1, visited @ [p])
           | Some parentPrototype \<Rightarrow>
               if parentPrototype \<noteq> ObjectPrototype
               then processPrototype cname parentPrototype (s1, visited @ [p])
               else (s1, visited @ [p]))"
  by pat_completeness auto
termination
proof (relation "measure (\<lambda>(cname, p, s, visited).
          length (cells s) - card (set visited \<inter> {..<length (cells s)}))", goal_cases)
  case 1
  then show ?case by simp
next
  case (2 cname p s visited s1 parent)
  let ?n = "length (cells s)"
  have len: "length (cells s1) = ?n"
    using 2 by (simp add: process_keys_length)
  have "p < length (cells s1)"
    using 2(3) by (auto simp: cell_at_def empty_cell_def split: if_splits)
  then have p: "p < ?n" using len by simp
  have "card (insert p (set visited \<inter> {..<?n})) \<le> card {..<?n}"
    using p by (intro card_mono) auto
  moreover have "card (insert p (set visited \<inter> {..<?n})) = Suc (card (set visited \<inter> {..<?n}))"
    using 2(1) by simp
  moreover have "set (visited @ [p]) \<inter> {..<?n} = insert p (set visited \<inter> {..<?n})"
    using p by auto
  ultimately show ?case
    using len by simp
qed

text \<open>\<open>constructor.prototype\<close>: the own data property, or \<open>undefined\<close>.\<close>

fun prototype_of :: "world \<Rightarrow> val \<Rightarrow> val" where
  "prototype_of s (Ref r) =
     (case map_of (props (cell_at s r)) ''prototype'' of
        Some (Data v w e c) \<Rightarrow> v
      | _ \<Rightarrow> Undefined)"
| "prototype_of s (WRef i) = WProto i"
| "prototype_of s v = Undefined"

text \<open>
  \<open>wrapControllerClass\<close>. The prototype object of a function created by \<open>wrapHandler\<close>
  has the one member \<open>constructor\<close> and the parent \<open>Object.prototype\<close>, so that
  processing it changes nothing. The entry point passes on only targets whose prototype
  is an object; an instance of \<open>Error\<close> as the prototype is outside the model.
\<close>

definition wrapControllerClass :: "world \<Rightarrow> val \<Rightarrow> val \<times> world" where
  "wrapControllerClass s ctor =
     (if \<not> isFunction s ctor then (ctor, s\<lparr>diags := diags s @ [ErrClassNonFunction ctor]\<rparr>)
      else if \<not> truthy (prototype_of s ctor)
      then (ctor, s\<lparr>diags := diags s @
                     [WarnNoPrototype (if fn_name s ctor = [] then ''anonymous''
                                       else fn_name s ctor)]\<rparr>)
      else case prototype_of s ctor of
             Ref p \<Rightarrow>
               (ctor, fst (processPrototype
                            (if fn_name s ctor = [] then ''anonymous'' else fn_name s ctor)
                            p (s, [])))
           | _ \<Rightarrow> (ctor, s))"

section \<open>The entry point (source lines 334--359)\<close>

definition catchAsync :: "world \<Rightarrow> val \<Rightarrow> val completion \<times> world" where
  "catchAsync s target =
     (if target = Null \<or> target = Undefined then (Normal target, s)
      else if isFunction s target \<and> truthy (prototype_of s target)
              \<and> typeof s (prototype_of s target) = ''object''
      then (case wrapControllerClass s target of (r, s1) \<Rightarrow> (Normal r, s1))
      else if isFunction s target then wrapHandler s target
      else (Throw (Err ''TypeError'' ''Target must be a function or a class constructor''), s))"

section \<open>Notions used in the statements\<close>

text \<open>Wrapping the function raises an exception (source lines 217--234 catch it).\<close>

definition wrap_fails :: "world \<Rightarrow> val \<Rightarrow> bool" where
  "wrap_fails s f = (case fst (wrapHandler s f) of Throw err \<Rightarrow> True | Normal r \<Rightarrow> False)"

text \<open>
  The levels of a class whose prototype object is \<open>start\<close>: that object, and the parent
  of a level as long as there is one and it is not \<open>Object.prototype\<close>.
\<close>

inductive ancestor :: "world \<Rightarrow> nat \<Rightarrow> nat \<Rightarrow> bool" for s :: world and start :: nat where
  start: "ancestor s start start"
| step: "ancestor s start p \<Longrightarrow> proto (cell_at s p) = Some q \<Longrightarrow> q \<noteq> ObjectPrototype
         \<Longrightarrow> ancestor s start q"

code_pred ancestor .

section \<open>Notions used in the proofs\<close>

text \<open>
  The state in which the original starts to run: the flag reset, the warning about the
  number of arguments printed when it applies, the run counted.
\<close>

definition entered :: "original \<Rightarrow> val list \<Rightarrow> wstate \<Rightarrow> wstate" where
  "entered f args st0 =
     (let st1 = st0\<lparr>hasCalledNext := False\<rparr>;
          st2 = (if length args < olength f
                 then st1\<lparr>console := console st1 @
                        [WarnInsufficientArgs (olength f) (length args) (oname f)]\<rparr>
                 else st1)
      in st2\<lparr>applied := applied st2 + 1\<rparr>)"

text \<open>One level of the chain: the loop over its own property names.\<close>

definition process_level :: "string \<Rightarrow> nat \<Rightarrow> world \<Rightarrow> world" where
  "process_level cname p s = process_keys cname p (own_keys (props (cell_at s p))) s"

text \<open>
  A property that the copying loop of \<open>wrapHandler\<close> cannot copy: an accessor, or a
  data property named \<open>prototype\<close>.
\<close>

definition uncopyable :: "(string \<times> desc) list \<Rightarrow> string \<Rightarrow> bool" where
  "uncopyable src k \<longleftrightarrow>
     k \<noteq> ''length'' \<and> k \<noteq> ''name'' \<and>
     (case map_of src k of
        None \<Rightarrow> False
      | Some (Accessor e c) \<Rightarrow> True
      | Some (Data v w e c) \<Rightarrow> k = ''prototype'')"

text \<open>
  Two heaps of the same shape: the same cells with the same prototype links, function
  parts and property names, each property of the same kind with the same attributes,
  values possibly replaced; and the later heap has all the wrappers of the earlier.
\<close>

definition same_kind :: "desc option \<Rightarrow> desc option \<Rightarrow> bool" where
  "same_kind d d' =
     (case d of
        None \<Rightarrow> d' = None
      | Some (Accessor e c) \<Rightarrow> d' = Some (Accessor e c)
      | Some (Data v w e c) \<Rightarrow> (\<exists>v'. d' = Some (Data v' w e c)))"

definition same_shape :: "world \<Rightarrow> world \<Rightarrow> bool" where
  "same_shape s s' \<longleftrightarrow>
     length (cells s') = length (cells s) \<and>
     (\<exists>ws. wrappers s' = wrappers s @ ws) \<and>
     (\<forall>r. proto (cell_at s' r) = proto (cell_at s r) \<and>
          fn (cell_at s' r) = fn (cell_at s r) \<and>
          map fst (props (cell_at s' r)) = map fst (props (cell_at s r)) \<and>
          (\<forall>k. same_kind (map_of (props (cell_at s r)) k) (map_of (props (cell_at s' r)) k)))"

text \<open>
  Wrapper \<open>i\<close> of the later heap was created after the earlier heap for the function
  \<open>v\<close>; and what the loop is expected to leave in a property whose descriptor was
  \<open>d\<close>.
\<close>

definition wrapped_as :: "world \<Rightarrow> world \<Rightarrow> val \<Rightarrow> nat \<Rightarrow> bool" where
  "wrapped_as s s' v i \<longleftrightarrow>
     length (wrappers s) \<le> i \<and> i < length (wrappers s') \<and>
     worig (wrappers s' ! i) = v \<and>
     wname (wrappers s' ! i) =
       ''wrapped_'' @ (if fn_name s v = [] then ''handler'' else fn_name s v) \<and>
     wlength (wrappers s' ! i) = fn_length s v"

definition expected :: "world \<Rightarrow> world \<Rightarrow> string \<Rightarrow> desc option \<Rightarrow> desc option \<Rightarrow> bool" where
  "expected s s' key d d' =
     (case d of
        Some (Data v w e c) \<Rightarrow>
          if key \<noteq> ''constructor'' \<and> isFunction s v \<and> \<not> wrap_fails s v \<and> (c \<or> w)
          then (\<exists>i. d' = Some (Data (WRef i) w e c) \<and> wrapped_as s s' v i)
          else d' = d
      | _ \<Rightarrow> d' = d)"

section \<open>Concrete scenarios\<close>

text \<open>The text of an object with the default \<open>toString\<close>.\<close>

definition default_text :: "val \<Rightarrow> val + string" where
  "default_text v = Inr ''[object Object]''"

text \<open>
  A heap with \<open>Object.prototype\<close>, a request and a response object, two continuations
  of the host (references 3 and 4), and an object made by \<open>Object.create(null)\<close>
  (reference 5), which \<open>String\<close> cannot convert.
\<close>

definition host :: world where
  "host = \<lparr>cells = [\<lparr>props = [], proto = None, fn = None\<rparr>,
                    \<lparr>props = [], proto = Some 0, fn = None\<rparr>,
                    \<lparr>props = [], proto = Some 0, fn = None\<rparr>,
                    \<lparr>props = [], proto = None, fn = Some \<lparr>fname = ''next'', flength = 1\<rparr>\<rparr>,
                    \<lparr>props = [], proto = None, fn = Some \<lparr>fname = ''next'', flength = 1\<rparr>\<rparr>,
                    \<lparr>props = [], proto = None, fn = None\<rparr>],
           wrappers = [], diags = [],
           text_of = (\<lambda>v. if v = Ref 5
                          then Inl (Err ''TypeError'' ''Cannot convert object to primitive value'')
                          else default_text v)\<rparr>"

definition idle :: wstate where
  "idle = \<lparr>hasCalledNext = False, calls = [], console = [], applied = 0\<rparr>"

text \<open>\<open>(req, res, next) => { next(new Error("a")); throw new Error("b") }\<close>\<close>

definition next_then_throw :: original where
  "next_then_throw =
     \<lparr>oname = [], olength = 3,
      body = (\<lambda>args. \<lparr>sync = [CallNext [Err ''Error'' ''a'']],
                       outcome = Raises (Err ''Error'' ''b'')\<rparr>)\<rparr>"

text \<open>\<open>(req, res, next) => { throw "String error" }\<close> and its \<open>async\<close> form.\<close>

definition throw_string :: original where
  "throw_string =
     \<lparr>oname = [], olength = 3,
      body = (\<lambda>args. \<lparr>sync = [Work], outcome = Raises (Str ''String error'')\<rparr>)\<rparr>"

definition reject_string :: original where
  "reject_string =
     \<lparr>oname = [], olength = 3,
      body = (\<lambda>args. \<lparr>sync = [],
                       outcome = ReturnsPromise [] (Reject (Str ''String error''))\<rparr>)\<rparr>"

text \<open>
  \<open>(req, res, next) => { throw Object.create(null) }\<close> and its \<open>async\<close> form.
\<close>

definition throw_bare :: original where
  "throw_bare =
     \<lparr>oname = [], olength = 3,
      body = (\<lambda>args. \<lparr>sync = [Work], outcome = Raises (Ref 5)\<rparr>)\<rparr>"

definition reject_bare :: original where
  "reject_bare =
     \<lparr>oname = [], olength = 3,
      body = (\<lambda>args. \<lparr>sync = [], outcome = ReturnsPromise [] (Reject (Ref 5))\<rparr>)\<rparr>"

text \<open>
  A handler that, for the request whose continuation is reference 3, reports a
  validation error with \<open>next\<close>, awaits and is then rejected with the string
  \<open>timeout\<close>; for any other request it awaits and succeeds.
\<close>

definition validate_then_time_out :: original where
  "validate_then_time_out =
     \<lparr>oname = ''saveUser'', olength = 3,
      body = (\<lambda>args. if last_arg args = Ref 3
                      then \<lparr>sync = [Work, CallNext [Err ''ValidationError'' ''bad input'']],
                            outcome = ReturnsPromise [Work] (Reject (Str ''timeout''))\<rparr>
                      else \<lparr>sync = [Work],
                            outcome = ReturnsPromise [Work] (Resolve Undefined)\<rparr>)\<rparr>"

text \<open>
  A handler that, for the request whose continuation is reference 3, awaits and is then
  rejected with the string \<open>timeout\<close>; for any other request it calls \<open>next()\<close> at
  once.
\<close>

definition time_out :: original where
  "time_out =
     \<lparr>oname = ''loadUser'', olength = 3,
      body = (\<lambda>args. if last_arg args = Ref 3
                      then \<lparr>sync = [Work],
                            outcome = ReturnsPromise [Work] (Reject (Str ''timeout''))\<rparr>
                      else \<lparr>sync = [Work, CallNext []], outcome = Returns Undefined\<rparr>)\<rparr>"

text \<open>
  A handler that, for the request whose continuation is reference 3, reports an error,
  awaits and then fails; for any other request it answers at once.
\<close>

definition report_then_fail :: original where
  "report_then_fail =
     \<lparr>oname = ''getUser'', olength = 3,
      body = (\<lambda>args. if last_arg args = Ref 3
                      then \<lparr>sync = [CallNext [Err ''Error'' ''a'']],
                            outcome = ReturnsPromise [Work] (Reject (Err ''Error'' ''b''))\<rparr>
                      else \<lparr>sync = [Work], outcome = Returns Undefined\<rparr>)\<rparr>"

text \<open>
  A handler that, for the request whose continuation is reference 3, awaits and then
  fails; for any other request it calls \<open>next()\<close> at once.
\<close>

definition fail_late :: original where
  "fail_late =
     \<lparr>oname = ''getUser'', olength = 3,
      body = (\<lambda>args. if last_arg args = Ref 3
                      then \<lparr>sync = [Work],
                            outcome = ReturnsPromise [Work] (Reject (Err ''Error'' ''b''))\<rparr>
                      else \<lparr>sync = [CallNext []], outcome = Returns Undefined\<rparr>)\<rparr>"

text \<open>
  A class \<open>Derived\<close> (reference 2) extending \<open>Base\<close> (reference 6). The prototype of
  \<open>Base\<close> (reference 5) holds a method written with method syntax and carrying a
  custom property (reference 7, anonymous), an accessor, a method assigned as an ordinary
  \<open>function\<close>, which owns a \<open>prototype\<close> (reference 8), the function of reference 7
  once more in a property that is neither writable nor configurable, and a number.
\<close>

definition app :: world where
  "app = \<lparr>cells =
     [\<lparr>props = [(''hasOwnProperty'', Data (Ref 1) True False True)], proto = None, fn = None\<rparr>,
      \<lparr>props = [], proto = None, fn = Some \<lparr>fname = ''hasOwnProperty'', flength = 1\<rparr>\<rparr>,
      \<lparr>props = [(''prototype'', Data (Ref 3) False False False)], proto = Some 6,
        fn = Some \<lparr>fname = ''Derived'', flength = 0\<rparr>\<rparr>,
      \<lparr>props = [(''constructor'', Data (Ref 2) True False True),
                (''derivedMethod'', Data (Ref 4) True False True)], proto = Some 5, fn = None\<rparr>,
      \<lparr>props = [], proto = None, fn = Some \<lparr>fname = ''derivedMethod'', flength = 3\<rparr>\<rparr>,
      \<lparr>props = [(''constructor'', Data (Ref 6) True False True),
                (''baseMethod'', Data (Ref 7) True False True),
                (''id'', Accessor False True),
                (''legacy'', Data (Ref 8) True False True),
                (''pinned'', Data (Ref 7) False False False),
                (''limit'', Data (Num 10) True True True)], proto = Some 0, fn = None\<rparr>,
      \<lparr>props = [(''prototype'', Data (Ref 5) False False False)], proto = None,
        fn = Some \<lparr>fname = ''Base'', flength = 0\<rparr>\<rparr>,
      \<lparr>props = [(''route'', Data (Str ''/base'') True True True)], proto = None, fn = Some \<lparr>fname = [], flength = 3\<rparr>\<rparr>,
      \<lparr>props = [(''prototype'', Data (Ref 9) True False False)], proto = None,
        fn = Some \<lparr>fname = ''legacy'', flength = 2\<rparr>\<rparr>,
      \<lparr>props = [(''constructor'', Data (Ref 8) True False True)], proto = Some 0, fn = None\<rparr>],
    wrappers = [], diags = [], text_of = default_text\<rparr>"

text \<open>The constructor \<open>Object\<close> (reference 2), whose prototype is \<open>Object.prototype\<close>.\<close>

definition builtins :: world where
  "builtins = \<lparr>cells =
     [\<lparr>props = [(''constructor'', Data (Ref 2) True False True),
                (''toString'', Data (Ref 1) True False True)], proto = None, fn = None\<rparr>,
      \<lparr>props = [], proto = None, fn = Some \<lparr>fname = ''toString'', flength = 0\<rparr>\<rparr>,
      \<lparr>props = [(''prototype'', Data (Ref 0) False False False)], proto = None,
        fn = Some \<lparr>fname = ''Object'', flength = 1\<rparr>\<rparr>],
    wrappers = [], diags = [], text_of = default_text\<rparr>"

text \<open>Two levels whose prototype links form a cycle.\<close>

definition looped :: world where
  "looped = \<lparr>cells =
     [\<lparr>props = [], proto = None, fn = None\<rparr>,
      \<lparr>props = [(''a'', Data (Ref 3) True False True)], proto = Some 2, fn = None\<rparr>,
      \<lparr>props = [(''b'', Data (Ref 3) True False True)], proto = Some 1, fn = None\<rparr>,
      \<lparr>props = [], proto = None, fn = Some \<lparr>fname = ''m'', flength = 3\<rparr>\<rparr>],
    wrappers = [], diags = [], text_of = default_text\<rparr>"

section \<open>Properties of the wrapped handler\<close>

lemma run_actions_flag:
  "hasCalledNext (run_actions f nxt acts st) = (hasCalledNext st \<or> next_calls acts \<noteq> [])"
  by (induction acts arbitrary: st rule: next_calls.induct) (auto simp: wrappedNext_def)

lemma run_actions_calls:
  "calls (run_actions f nxt acts st) =
     calls st @ (if hasCalledNext st then []
                 else case next_calls acts of [] \<Rightarrow> [] | a # rest \<Rightarrow> [(nxt, a)])"
proof (induction acts arbitrary: st rule: next_calls.induct)
  case 1
  then show ?case by simp
next
  case (2 nextArgs as)
  then show ?case by (simp add: wrappedNext_def)
next
  case (3 as)
  then show ?case by simp
qed

lemma run_actions_applied: "applied (run_actions f nxt acts st) = applied st"
  by (induction acts arbitrary: st rule: next_calls.induct) (auto simp: wrappedNext_def)

lemma next_calls_append: "next_calls (xs @ ys) = next_calls xs @ next_calls ys"
  by (induction xs rule: next_calls.induct) auto

lemma entered_fields:
  "hasCalledNext (entered f args st) = False"
  "calls (entered f args st) = calls st"
  "applied (entered f args st) = applied st + 1"
  by (simp_all add: entered_def Let_def)

lemma wrappedHandler_callable:
  assumes "isFunction h (last_arg args)"
  shows "wrappedHandler h f args st =
     (let st3 = run_actions f (last_arg args) (sync (body f args)) (entered f args st)
      in case outcome (body f args) of
           Returns v \<Rightarrow> (Normal (Value v), st3)
         | ReturnsPromise acts how \<Rightarrow>
             (Normal (Pending \<lparr>pnext = last_arg args, pacts = acts, psettle = how\<rparr>), st3)
         | Raises err \<Rightarrow>
             (case deliver_failure h ''Non-Error thrown synchronously: '' f (last_arg args)
                     err st3 of
                (Throw thrown, st4) \<Rightarrow> (Throw thrown, st4)
              | (Normal u, st4) \<Rightarrow> (Normal (Value Undefined), st4)))"
  using assms by (simp add: wrappedHandler_def entered_def Let_def)

lemma deliver_failure_fired:
  "hasCalledNext st \<Longrightarrow> deliver_failure h pre f nxt err st = (Normal (), st)"
  by (simp add: deliver_failure_def)

lemma deliver_failure_converted:
  "\<not> hasCalledNext st \<Longrightarrow> errorToPass h pre err = Inr e \<Longrightarrow>
   deliver_failure h pre f nxt err st =
     (Normal (), st\<lparr>hasCalledNext := True, calls := calls st @ [(nxt, [e])]\<rparr>)"
  by (simp add: deliver_failure_def wrappedNext_def)

lemma deliver_failure_throws:
  "\<not> hasCalledNext st \<Longrightarrow> errorToPass h pre err = Inl thrown \<Longrightarrow>
   deliver_failure h pre f nxt err st = (Throw thrown, st)"
  by (simp add: deliver_failure_def)

lemma errorToPass_shape:
  assumes "errorToPass h p err = Inr e"
  shows "case err of
           Err n m \<Rightarrow> e = err
         | _ \<Rightarrow> \<exists>t. js_String h err = Inr t \<and> e = Err ''Error'' (p @ t)"
  using assms
  by (cases err)
     (auto simp: errorToPass_def split: sum.splits simp del: js_String.simps)

lemmas scenario_defs =
  host_def idle_def default_text_def next_then_throw_def throw_string_def reject_string_def
  throw_bare_def reject_bare_def validate_then_time_out_def time_out_def
  report_then_fail_def fail_late_def

lemmas wrapper_defs =
  wrappedHandler_def settle_pending_def invoke_alone_def call_between_def
  deliver_failure_def wrappedNext_def errorToPass_def last_arg_def cell_at_def steps_def Let_def

text \<open>
  What holds of one invocation taken on its own, from its call to the settling of its
  promise with no other call of the same wrapper in between: when the handler calls the
  continuation and afterwards throws or is rejected, exactly the first call reaches the
  host's continuation.
\<close>

lemma alone_first_delivery_wins:
  assumes "isFunction h (last_arg args)"
    and "outcome (body f args) = Raises v \<or>
         outcome (body f args) = ReturnsPromise acts (Reject v)"
    and "next_calls (steps (body f args)) = a # rest"
  shows "calls (invoke_alone h f args st) = calls st @ [(last_arg args, a)]"
proof -
  let ?st3 = "run_actions f (last_arg args) (sync (body f args)) (entered f args st)"
  note call = wrappedHandler_callable [OF assms(1), of f st]
  from assms(2) show ?thesis
  proof
    assume thrown: "outcome (body f args) = Raises v"
    then have first: "next_calls (sync (body f args)) = a # rest"
      using assms(3) by (simp add: steps_def)
    then have "hasCalledNext ?st3"
      by (simp add: run_actions_flag)
    then have "deliver_failure h ''Non-Error thrown synchronously: '' f (last_arg args) v ?st3 =
                 (Normal (), ?st3)"
      by (rule deliver_failure_fired)
    then have "invoke_alone h f args st = ?st3"
      using thrown by (simp add: invoke_alone_def call Let_def)
    then show ?thesis
      using first by (simp add: run_actions_calls entered_fields)
  next
    assume rejected: "outcome (body f args) = ReturnsPromise acts (Reject v)"
    let ?st4 = "run_actions f (last_arg args) acts ?st3"
    have first: "next_calls (sync (body f args)) @ next_calls acts = a # rest"
      using assms(3) rejected by (simp add: steps_def next_calls_append)
    then have "hasCalledNext ?st4"
      by (auto simp: run_actions_flag)
    then have "deliver_failure h ''Non-Error thrown/rejected: '' f (last_arg args) v ?st4 =
                 (Normal (), ?st4)"
      by (rule deliver_failure_fired)
    then have "invoke_alone h f args st = ?st4"
      using rejected by (simp add: invoke_alone_def call settle_pending_def Let_def)
    then show ?thesis
      using first
      by (auto simp: run_actions_calls run_actions_flag entered_fields split: list.splits)
  qed
qed

text \<open>
  Claim C1 says that in every invocation in which the handler calls the continuation with
  an error and is afterwards rejected, the continuation is called exactly once. In the
  code the guard is the one variable \<open>hasCalledNext\<close> of the wrapper, which every call
  of the wrapper sets to false (source lines 56 and 65). Here the first invocation calls
  \<open>next\<close> with a validation error and awaits; a second request arrives and calls the
  same wrapper; then the first invocation is rejected. The rejection callback of the
  first invocation finds the flag unset and calls the first request's continuation a
  second time. Alone, the same invocation calls it once.
\<close>

theorem C1_delivered_twice_after_another_call:
  "isFunction host (last_arg [Ref 1, Ref 2, Ref 3]) \<and>
   outcome (body validate_then_time_out [Ref 1, Ref 2, Ref 3]) =
     ReturnsPromise [Work] (Reject (Str ''timeout'')) \<and>
   next_calls (steps (body validate_then_time_out [Ref 1, Ref 2, Ref 3])) =
     [[Err ''ValidationError'' ''bad input'']] \<and>
   calls (call_between host validate_then_time_out
            [Ref 1, Ref 2, Ref 3] [Ref 1, Ref 2, Ref 4] idle) =
     [(Ref 3, [Err ''ValidationError'' ''bad input'']),
      (Ref 3, [Err ''Error'' ''Non-Error thrown/rejected: timeout''])] \<and>
   calls (invoke_alone host validate_then_time_out [Ref 1, Ref 2, Ref 3] idle) =
     [(Ref 3, [Err ''ValidationError'' ''bad input''])]"
  by (simp add: scenario_defs wrapper_defs)

text \<open>
  Claim C2 says that the flag is per call. In the code the one variable
  \<open>hasCalledNext\<close> of the wrapper serves all its invocations and every call resets it.
  First scenario: an invocation has delivered an error and is awaiting; a second call of
  the same wrapper resets the flag; the first invocation's rejection is then delivered as
  well, so that its continuation is called twice, whereas alone it is called once. Second
  scenario: an invocation is awaiting; a second call of the same wrapper calls its own
  continuation and sets the flag; the first invocation's rejection is then dropped and
  its continuation is never called, whereas alone it is called with the error.
\<close>

theorem C2_flag_shared_between_invocations:
  "calls (call_between host report_then_fail [Ref 1, Ref 2, Ref 3] [Ref 1, Ref 2, Ref 4] idle) =
     [(Ref 3, [Err ''Error'' ''a'']), (Ref 3, [Err ''Error'' ''b''])] \<and>
   calls (invoke_alone host report_then_fail [Ref 1, Ref 2, Ref 3] idle) =
     [(Ref 3, [Err ''Error'' ''a''])] \<and>
   calls (call_between host fail_late [Ref 1, Ref 2, Ref 3] [Ref 1, Ref 2, Ref 4] idle) =
     [(Ref 4, [])] \<and>
   calls (invoke_alone host fail_late [Ref 1, Ref 2, Ref 3] idle) =
     [(Ref 3, [Err ''Error'' ''b''])]"
  by (simp add: scenario_defs wrapper_defs)

text \<open>
  What holds of a rejection whose value is an \<open>Error\<close> or can be converted by
  \<open>String\<close>: the wrapper returns a promise; whenever the rejection settles, that promise
  is fulfilled with \<open>undefined\<close>, and if the flag is unset by then, the host's
  continuation is called once, with the \<open>Error\<close> unchanged or with a new \<open>Error\<close>
  whose message ends with the text of the value.
\<close>

lemma rejection_delivered_when_converted:
  assumes "isFunction h (last_arg args)"
    and "outcome (body f args) = ReturnsPromise acts (Reject err)"
    and "errorToPass h ''Non-Error thrown/rejected: '' err = Inr e"
  shows "\<exists>p st1. wrappedHandler h f args st = (Normal (Pending p), st1) \<and>
           (\<forall>st2. fst (settle_pending h f p st2) = Resolved Undefined \<and>
              (\<not> hasCalledNext (run_actions f (pnext p) (pacts p) st2) \<longrightarrow>
                 calls (snd (settle_pending h f p st2)) =
                   calls st2 @ [(last_arg args, [e])])) \<and>
         (case err of
            Err n m \<Rightarrow> e = err
          | _ \<Rightarrow> \<exists>t. js_String h err = Inr t \<and>
                      e = Err ''Error'' (''Non-Error thrown/rejected: '' @ t))"
proof -
  let ?p = "\<lparr>pnext = last_arg args, pacts = acts, psettle = Reject err\<rparr>"
  let ?pre = "''Non-Error thrown/rejected: ''"
  obtain st1 where call: "wrappedHandler h f args st = (Normal (Pending ?p), st1)"
    using assms(2) by (simp add: wrappedHandler_callable [OF assms(1)] Let_def)
  have res: "fst (settle_pending h f ?p st2) = Resolved Undefined" for st2
    using assms(3)
    by (cases "hasCalledNext (run_actions f (last_arg args) acts st2)")
       (simp_all add: settle_pending_def Let_def deliver_failure_fired
          deliver_failure_converted)
  have del: "calls (snd (settle_pending h f ?p st2)) = calls st2 @ [(last_arg args, [e])]"
    if "\<not> hasCalledNext (run_actions f (pnext ?p) (pacts ?p) st2)" for st2
    using that assms(3)
    by (simp add: settle_pending_def Let_def deliver_failure_converted run_actions_calls
        run_actions_flag)
  show ?thesis
    using call res del errorToPass_shape [OF assms(3)] by blast
qed

text \<open>
  Claim C3 says that a rejection that settles while the guarded continuation has not
  fired is delivered, a value that is not an \<open>Error\<close> inside a new \<open>Error\<close>, and
  that the promise of the wrapper is fulfilled. Two runs of the code do otherwise. In
  the first the handler is rejected with an object made by \<open>Object.create(null)\<close>:
  \<open>String(err)\<close> at source line 112 throws a \<open>TypeError\<close> inside the callback, so
  that the promise of the wrapper is rejected and the continuation is never called. In
  the second the invocation is awaiting and its guarded continuation has not been
  called; another call of the same wrapper calls its own continuation, which sets the
  flag they share; the rejection of the first invocation is then dropped and the first
  request's continuation is never called.
\<close>

theorem C3_rejection_propagated_or_lost:
  "wrappedHandler host reject_bare [Ref 1, Ref 2, Ref 3] idle =
     (Normal (Pending \<lparr>pnext = Ref 3, pacts = [], psettle = Reject (Ref 5)\<rparr>),
      \<lparr>hasCalledNext = False, calls = [], console = [], applied = 1\<rparr>) \<and>
   settle_pending host reject_bare \<lparr>pnext = Ref 3, pacts = [], psettle = Reject (Ref 5)\<rparr>
       \<lparr>hasCalledNext = False, calls = [], console = [], applied = 1\<rparr> =
     (Rejected (Err ''TypeError'' ''Cannot convert object to primitive value''),
      \<lparr>hasCalledNext = False, calls = [], console = [], applied = 1\<rparr>) \<and>
   next_calls (steps (body time_out [Ref 1, Ref 2, Ref 3])) = [] \<and>
   calls (call_between host time_out [Ref 1, Ref 2, Ref 3] [Ref 1, Ref 2, Ref 4] idle) =
     [(Ref 4, [])] \<and>
   calls (invoke_alone host time_out [Ref 1, Ref 2, Ref 3] idle) =
     [(Ref 3, [Err ''Error'' ''Non-Error thrown/rejected: timeout''])]"
  by (simp add: scenario_defs wrapper_defs)

text \<open>
  What holds of a synchronous throw whose value is an \<open>Error\<close> or can be converted by
  \<open>String\<close>: the call of the wrapper returns \<open>undefined\<close>, and if the handler has not
  called the continuation before, the host's continuation is called once, with the
  \<open>Error\<close> unchanged or with a new \<open>Error\<close> whose message ends with the text of the
  value.
\<close>

lemma throw_delivered_when_converted:
  assumes "isFunction h (last_arg args)"
    and "outcome (body f args) = Raises err"
    and "errorToPass h ''Non-Error thrown synchronously: '' err = Inr e"
  shows "fst (wrappedHandler h f args st) = Normal (Value Undefined) \<and>
         (next_calls (sync (body f args)) = [] \<longrightarrow>
            calls (snd (wrappedHandler h f args st)) = calls st @ [(last_arg args, [e])]) \<and>
         (case err of
            Err n m \<Rightarrow> e = err
          | _ \<Rightarrow> \<exists>t. js_String h err = Inr t \<and>
                      e = Err ''Error'' (''Non-Error thrown synchronously: '' @ t))"
proof -
  let ?st3 = "run_actions f (last_arg args) (sync (body f args)) (entered f args st)"
  have run: "wrappedHandler h f args st =
               (case deliver_failure h ''Non-Error thrown synchronously: '' f (last_arg args)
                       err ?st3 of
                  (Throw thrown, st4) \<Rightarrow> (Throw thrown, st4)
                | (Normal u, st4) \<Rightarrow> (Normal (Value Undefined), st4))"
    using assms(2) by (simp add: wrappedHandler_callable [OF assms(1)] Let_def)
  have 1: "fst (wrappedHandler h f args st) = Normal (Value Undefined)"
    using assms(3)
    by (cases "hasCalledNext ?st3")
       (simp_all add: run deliver_failure_fired deliver_failure_converted)
  have 2: "calls (snd (wrappedHandler h f args st)) = calls st @ [(last_arg args, [e])]"
    if "next_calls (sync (body f args)) = []"
  proof -
    have "\<not> hasCalledNext ?st3"
      using that by (simp add: run_actions_flag entered_fields)
    then show ?thesis
      using that assms(3)
      by (simp add: run deliver_failure_converted run_actions_calls entered_fields)
  qed
  show ?thesis
    using 1 2 errorToPass_shape [OF assms(3)] by blast
qed

text \<open>
  Claim C4 says that a synchronous throw of the original never leaves the wrapper and is
  delivered to the continuation. When the handler throws an object made by
  \<open>Object.create(null)\<close>, \<open>String(err)\<close> at source line 126 throws a \<open>TypeError\<close>
  inside the \<open>catch\<close> block: the call of the wrapper ends with that exception and the
  continuation is never called.
\<close>

theorem C4_conversion_failure_leaves_wrapper:
  "isFunction host (last_arg [Ref 1, Ref 2, Ref 3]) \<and>
   outcome (body throw_bare [Ref 1, Ref 2, Ref 3]) = Raises (Ref 5) \<and>
   wrappedHandler host throw_bare [Ref 1, Ref 2, Ref 3] idle =
     (Throw (Err ''TypeError'' ''Cannot convert object to primitive value''),
      \<lparr>hasCalledNext = False, calls = [], console = [], applied = 1\<rparr>)"
  by (simp add: scenario_defs wrapper_defs)

text \<open>
  Claim C9. When the last argument of a call of the wrapper is not callable (or there is
  no argument), the call returns \<open>undefined\<close> at once: the original is not run, no
  continuation is called, and the console receives the diagnostic (after the warning
  about the number of arguments, when that applies). The flag has been reset by then.
\<close>

theorem C9_no_continuation_aborts:
  assumes "\<not> isFunction h (last_arg args)"
  shows "wrappedHandler h f args st =
           (Normal (Value Undefined),
            st\<lparr>hasCalledNext := False,
               console := console st @
                 (if length args < olength f
                  then [WarnInsufficientArgs (olength f) (length args) (oname f)] else []) @
                 [ErrLastArgNotFunction (oname f) (typeof h (last_arg args))]\<rparr>) \<and>
         calls (snd (wrappedHandler h f args st)) = calls st \<and>
         applied (snd (wrappedHandler h f args st)) = applied st"
  using assms by (simp add: wrappedHandler_def Let_def)

theorem C9_no_continuation_aborts_witness:
  "\<not> isFunction host (last_arg [Ref 1, Ref 2]) \<and>
   wrappedHandler host next_then_throw [Ref 1, Ref 2] idle =
     (Normal (Value Undefined),
      \<lparr>hasCalledNext = False, calls = [],
       console = [WarnInsufficientArgs 3 2 [], ErrLastArgNotFunction [] ''object''],
       applied = 0\<rparr>) \<and>
   calls (snd (wrappedHandler host next_then_throw [Ref 1, Ref 2] idle)) = calls idle \<and>
   applied (snd (wrappedHandler host next_then_throw [Ref 1, Ref 2] idle)) = applied idle"
  using C9_no_continuation_aborts [where h = host and args = "[Ref 1, Ref 2]"
      and f = next_then_throw and st = idle]
  by (simp add: scenario_defs last_arg_def cell_at_def)

section \<open>Properties of wrapping\<close>

lemma same_kind_refl: "same_kind d d"
  by (auto simp: same_kind_def split: option.splits desc.splits)

lemma same_kind_trans: "same_kind d d' \<Longrightarrow> same_kind d' d'' \<Longrightarrow> same_kind d d''"
  by (auto simp: same_kind_def split: option.splits desc.splits)

lemma same_shape_refl: "same_shape s s"
  by (simp add: same_shape_def same_kind_refl)

lemma same_shape_trans:
  assumes "same_shape s s'" and "same_shape s' s''"
  shows "same_shape s s''"
proof -
  from assms obtain ws ws' where "wrappers s' = wrappers s @ ws" "wrappers s'' = wrappers s' @ ws'"
    by (auto simp: same_shape_def)
  then have "wrappers s'' = wrappers s @ (ws @ ws')" by simp
  then have "\<exists>w. wrappers s'' = wrappers s @ w" by blast
  moreover have "same_kind (map_of (props (cell_at s r)) k) (map_of (props (cell_at s'' r)) k)"
    for r k
    using assms same_kind_trans unfolding same_shape_def by blast
  ultimately show ?thesis
    using assms unfolding same_shape_def by simp
qed

lemma same_shape_isFunction: "same_shape s s' \<Longrightarrow> isFunction s' v = isFunction s v"
  by (cases v) (simp_all add: same_shape_def)

lemma same_shape_fn_name: "same_shape s s' \<Longrightarrow> fn_name s' (Ref r) = fn_name s (Ref r)"
  by (simp add: same_shape_def)

lemma same_shape_fn_length: "same_shape s s' \<Longrightarrow> fn_length s' (Ref r) = fn_length s (Ref r)"
  by (simp add: same_shape_def)

lemma copy_props_fails:
  "(\<exists>err. copy_props src keys acc = Inl err) \<longleftrightarrow> (\<exists>k \<in> set keys. uncopyable src k)"
proof (induction keys arbitrary: acc)
  case Nil
  then show ?case by simp
next
  case (Cons k keys)
  show ?case
  proof (cases "map_of src k")
    case None
    then show ?thesis using Cons.IH by (simp add: uncopyable_def)
  next
    case (Some d)
    then show ?thesis
      using Cons.IH by (cases d) (auto simp: uncopyable_def split: sum.splits)
  qed
qed

lemma wrap_fails_iff:
  "wrap_fails s f \<longleftrightarrow>
     isFunction s f \<and> (\<exists>k \<in> set (own_keys (own_props s f)). uncopyable (own_props s f) k)"
proof (cases "isFunction s f")
  case False
  then show ?thesis by (simp add: wrap_fails_def wrapHandler_def)
next
  case True
  have "wrap_fails s f \<longleftrightarrow>
          (\<exists>err. copy_props (own_props s f) (own_keys (own_props s f)) [] = Inl err)"
    using True by (auto simp: wrap_fails_def wrapHandler_def Let_def split: sum.splits)
  then show ?thesis
    using True by (simp add: copy_props_fails)
qed

lemma wrap_fails_WRef: "wrap_fails s (WRef i)"
proof -
  have "uncopyable (own_props s (WRef i)) ''prototype''"
    by (simp add: uncopyable_def)
  moreover have "''prototype'' \<in> set (own_keys (own_props s (WRef i)))"
    by (simp add: own_keys_def)
  ultimately show ?thesis
    unfolding wrap_fails_iff by auto
qed

lemma same_shape_uncopyable:
  assumes "same_shape s s'"
  shows "uncopyable (props (cell_at s' r)) k = uncopyable (props (cell_at s r)) k"
proof -
  have "same_kind (map_of (props (cell_at s r)) k) (map_of (props (cell_at s' r)) k)"
    using assms by (simp add: same_shape_def)
  then show ?thesis
    by (auto simp: uncopyable_def same_kind_def split: option.splits desc.splits)
qed

lemma same_shape_wrap_fails:
  assumes "same_shape s s'"
  shows "wrap_fails s' v = wrap_fails s v"
proof (cases v)
  case (Ref r)
  have "own_keys (props (cell_at s' r)) = own_keys (props (cell_at s r))"
    using assms by (simp add: own_keys_def same_shape_def)
  then show ?thesis
    using Ref same_shape_isFunction [OF assms, of v] same_shape_uncopyable [OF assms, of r]
    by (simp add: wrap_fails_iff)
next
  case (WRef i)
  then show ?thesis by (simp add: wrap_fails_WRef)
qed (simp_all add: wrap_fails_iff)

lemma wrapHandler_fail: "wrap_fails s v \<Longrightarrow> \<exists>err. wrapHandler s v = (Throw err, s)"
  by (auto simp: wrap_fails_def wrapHandler_def Let_def split: sum.splits if_splits)

lemma wrapHandler_ok:
  assumes "isFunction s v" and "\<not> wrap_fails s v"
  shows "\<exists>ps. wrapHandler s v =
           (Normal (WRef (length (wrappers s))),
            s\<lparr>wrappers := wrappers s @
                 [\<lparr>wname = ''wrapped_'' @ (if fn_name s v = [] then ''handler'' else fn_name s v),
                   wlength = fn_length s v, wprops = ps, worig = v\<rparr>]\<rparr>)"
  using assms by (auto simp: wrap_fails_def wrapHandler_def Let_def split: sum.splits)

lemma cell_at_diags [simp]: "cell_at (s\<lparr>diags := x\<rparr>) r = cell_at s r"
  by (simp add: cell_at_def)

lemma cell_at_wrappers [simp]: "cell_at (s\<lparr>wrappers := x\<rparr>) r = cell_at s r"
  by (simp add: cell_at_def)

lemma has_prop_in_heap: "map_of (props (cell_at s p)) key = Some d \<Longrightarrow> p < length (cells s)"
  by (auto simp: cell_at_def empty_cell_def split: if_splits)

lemma cell_at_set_prop:
  "p < length (cells s) \<Longrightarrow>
   cell_at (set_prop p key d s) r =
     (if r = p then (cell_at s p)\<lparr>props := AList.update key d (props (cell_at s p))\<rparr>
      else cell_at s r)"
  by (simp add: cell_at_def set_prop_def)

lemma same_shape_diags: "same_shape s s' \<Longrightarrow> same_shape s (s'\<lparr>diags := x\<rparr>)"
  by (simp add: same_shape_def)

lemma same_shape_grow: "same_shape s (s\<lparr>wrappers := wrappers s @ ws\<rparr>)"
  by (simp add: same_shape_def same_kind_refl)

lemma same_shape_set_prop:
  assumes "map_of (props (cell_at s p)) key = Some (Data v w e c)"
  shows "same_shape s (set_prop p key (Data v' w e c) s)"
proof -
  have p: "p < length (cells s)" using assms by (rule has_prop_in_heap)
  have key: "key \<in> set (map fst (props (cell_at s p)))"
    using assms by (metis map_of_eq_None_iff option.distinct(1) set_map)
  have "same_kind (map_of (props (cell_at s r)) k)
          (map_of (props (cell_at (set_prop p key (Data v' w e c) s) r)) k)" for r k
    using assms p by (simp add: cell_at_set_prop update_conv' same_kind_refl) (simp add: same_kind_def)
  moreover have "map fst (props (cell_at (set_prop p key (Data v' w e c) s) r)) =
                 map fst (props (cell_at s r))" for r
    using p key by (simp add: cell_at_set_prop update_keys)
  moreover have "length (cells (set_prop p key (Data v' w e c) s)) = length (cells s)"
    by (simp add: set_prop_def)
  moreover have "wrappers (set_prop p key (Data v' w e c) s) = wrappers s @ []"
    by (simp add: set_prop_def)
  ultimately show ?thesis
    using p unfolding same_shape_def by (auto simp: cell_at_set_prop)
qed

lemma expected_unchanged:
  assumes "key = ''constructor'' \<or>
           (case d of Some (Data v w e c) \<Rightarrow>
              \<not> isFunction s v \<or> wrap_fails s v \<or> (\<not> c \<and> \<not> w) | _ \<Rightarrow> True)"
  shows "expected s s' key d d"
  using assms by (auto simp: expected_def split: option.splits desc.splits)

lemma process_key_cases:
  fixes s p key cname
  defines "d \<equiv> map_of (props (cell_at s p)) key"
  defines "s' \<equiv> process_key cname p key s"
  shows "(cells s' = cells s \<and> (\<exists>ws. wrappers s' = wrappers s @ ws) \<and>
          (key = ''constructor'' \<or>
           (case d of Some (Data v w e c) \<Rightarrow>
              \<not> isFunction s v \<or> wrap_fails s v \<or> (\<not> c \<and> \<not> w) | _ \<Rightarrow> True)))
       \<or> (\<exists>v w e c wr.
            d = Some (Data v w e c) \<and> key \<noteq> ''constructor'' \<and> isFunction s v \<and>
            \<not> wrap_fails s v \<and> (c \<or> w) \<and>
            worig wr = v \<and>
            wname wr = ''wrapped_'' @ (if fn_name s v = [] then ''handler'' else fn_name s v) \<and>
            wlength wr = fn_length s v \<and>
            s' = set_prop p key (Data (WRef (length (wrappers s))) w e c)
                   (s\<lparr>wrappers := wrappers s @ [wr]\<rparr>))"
proof (cases "key = ''constructor''")
  case True
  then show ?thesis by (simp add: s'_def process_key_def)
next
  case notc: False
  show ?thesis
  proof (cases d)
    case None
    then show ?thesis using notc by (simp add: s'_def d_def process_key_def)
  next
    case (Some dd)
    show ?thesis
    proof (cases dd)
      case (Accessor e c)
      then show ?thesis using notc Some by (simp add: s'_def d_def process_key_def)
    next
      case (Data v w e c)
      note dd = Some [unfolded Data]
      show ?thesis
      proof (cases "isFunction s v")
        case False
        then show ?thesis using notc dd by (simp add: s'_def d_def process_key_def)
      next
        case isf: True
        show ?thesis
        proof (cases "wrap_fails s v")
          case True
          then obtain err where "wrapHandler s v = (Throw err, s)"
            using wrapHandler_fail by blast
          then show ?thesis
            using notc dd isf True by (simp add: s'_def d_def process_key_def)
        next
          case ok: False
          from wrapHandler_ok [OF isf ok] obtain ps where
            wh: "wrapHandler s v =
              (Normal (WRef (length (wrappers s))),
               s\<lparr>wrappers := wrappers s @
                 [\<lparr>wname = ''wrapped_'' @ (if fn_name s v = [] then ''handler'' else fn_name s v),
                   wlength = fn_length s v, wprops = ps, worig = v\<rparr>]\<rparr>)"
            by blast
          have neq: "WRef (length (wrappers s)) \<noteq> v"
            using ok wrap_fails_WRef by auto
          show ?thesis
          proof (cases "c \<or> w")
            case False
            then show ?thesis
              using notc dd isf ok wh neq by (simp add: s'_def d_def process_key_def)
          next
            case True
            have "s' = set_prop p key (Data (WRef (length (wrappers s))) w e c)
                   (s\<lparr>wrappers := wrappers s @
                 [\<lparr>wname = ''wrapped_'' @ (if fn_name s v = [] then ''handler'' else fn_name s v),
                   wlength = fn_length s v, wprops = ps, worig = v\<rparr>]\<rparr>)"
              using notc dd isf ok wh neq True
              by (auto simp: s'_def d_def process_key_def)
            then have "\<exists>wr. worig wr = v \<and>
                wname wr = ''wrapped_'' @ (if fn_name s v = [] then ''handler'' else fn_name s v) \<and>
                wlength wr = fn_length s v \<and>
                s' = set_prop p key (Data (WRef (length (wrappers s))) w e c)
                       (s\<lparr>wrappers := wrappers s @ [wr]\<rparr>)"
              by (intro exI [of _ "\<lparr>wname = ''wrapped_'' @
                     (if fn_name s v = [] then ''handler'' else fn_name s v),
                   wlength = fn_length s v, wprops = ps, worig = v\<rparr>"]) simp
            then show ?thesis
              using notc dd isf ok True by blast
          qed
        qed
      qed
    qed
  qed
qed

lemma same_shape_same_cells:
  "cells s' = cells s \<Longrightarrow> \<exists>ws. wrappers s' = wrappers s @ ws \<Longrightarrow> same_shape s s'"
  by (simp add: same_shape_def cell_at_def same_kind_refl)

lemma process_key_effect:
  fixes s p key cname
  defines "s' \<equiv> process_key cname p key s"
  shows "same_shape s s'"
    and "\<And>r. r \<noteq> p \<Longrightarrow> cell_at s' r = cell_at s r"
    and "\<And>k. k \<noteq> key \<Longrightarrow> map_of (props (cell_at s' p)) k = map_of (props (cell_at s p)) k"
    and "expected s s' key (map_of (props (cell_at s p)) key) (map_of (props (cell_at s' p)) key)"
proof -
  let ?d = "map_of (props (cell_at s p)) key"
  consider
    (same) "cells s' = cells s" "\<exists>ws. wrappers s' = wrappers s @ ws"
      "key = ''constructor'' \<or>
           (case ?d of Some (Data v w e c) \<Rightarrow>
              \<not> isFunction s v \<or> wrap_fails s v \<or> (\<not> c \<and> \<not> w) | _ \<Rightarrow> True)"
  | (wrapped) v w e c wr where
      "?d = Some (Data v w e c)" "key \<noteq> ''constructor''" "isFunction s v"
      "\<not> wrap_fails s v" "c \<or> w" "worig wr = v"
      "wname wr = ''wrapped_'' @ (if fn_name s v = [] then ''handler'' else fn_name s v)"
      "wlength wr = fn_length s v"
      "s' = set_prop p key (Data (WRef (length (wrappers s))) w e c)
                   (s\<lparr>wrappers := wrappers s @ [wr]\<rparr>)"
    using process_key_cases [of cname p key s] unfolding s'_def
    by (elim disjE exE conjE) blast+
  then have "same_shape s s' \<and>
     (\<forall>r. r \<noteq> p \<longrightarrow> cell_at s' r = cell_at s r) \<and>
     (\<forall>k. k \<noteq> key \<longrightarrow> map_of (props (cell_at s' p)) k = map_of (props (cell_at s p)) k) \<and>
     expected s s' key ?d (map_of (props (cell_at s' p)) key)"
  proof cases
    case same
    have eq: "cell_at s' r = cell_at s r" for r
      using same(1) by (simp add: cell_at_def)
    show ?thesis
      using same same_shape_same_cells [where s = s and s' = s'] expected_unchanged [where key = key and d = ?d and s = s and s' = s']
      by (simp add: eq)
  next
    case wrapped
    let ?s1 = "s\<lparr>wrappers := wrappers s @ [wr]\<rparr>"
    let ?n = "length (wrappers s)"
    have d1: "map_of (props (cell_at ?s1 p)) key = Some (Data v w e c)"
      using wrapped(1) by simp
    have p: "p < length (cells ?s1)"
      using d1 by (rule has_prop_in_heap)
    have sh: "same_shape s s'"
      unfolding wrapped(9)
      by (rule same_shape_trans [OF same_shape_grow same_shape_set_prop [OF d1]])
    have others: "cell_at s' r = cell_at s r" if "r \<noteq> p" for r
      using that p by (simp add: wrapped(9) cell_at_set_prop)
    have keys: "map_of (props (cell_at s' p)) k = map_of (props (cell_at s p)) k" if "k \<noteq> key" for k
      using that p by (simp add: wrapped(9) cell_at_set_prop update_conv')
    have new: "map_of (props (cell_at s' p)) key = Some (Data (WRef ?n) w e c)"
      using p by (simp add: wrapped(9) cell_at_set_prop update_conv')
    have ws: "wrappers s' = wrappers s @ [wr]"
      by (simp add: wrapped(9) set_prop_def)
    have "wrapped_as s s' v ?n"
      using wrapped(6-8) by (simp add: wrapped_as_def ws)
    then have "expected s s' key ?d (map_of (props (cell_at s' p)) key)"
      using wrapped(1-5) new by (auto simp: expected_def)
    then show ?thesis
      using sh others keys by blast
  qed
  then show "same_shape s s'"
    and "\<And>r. r \<noteq> p \<Longrightarrow> cell_at s' r = cell_at s r"
    and "\<And>k. k \<noteq> key \<Longrightarrow> map_of (props (cell_at s' p)) k = map_of (props (cell_at s p)) k"
    and "expected s s' key (map_of (props (cell_at s p)) key) (map_of (props (cell_at s' p)) key)"
    by blast+
qed

lemma wrapped_as_later:
  assumes "wrapped_as s s1 v i" and "wrappers s2 = wrappers s1 @ ws"
  shows "wrapped_as s s2 v i"
  using assms by (simp add: wrapped_as_def nth_append)

lemma expected_later:
  assumes "expected s s1 key d d'" and "same_shape s1 s2"
  shows "expected s s2 key d d'"
proof -
  obtain ws where "wrappers s2 = wrappers s1 @ ws"
    using assms(2) by (auto simp: same_shape_def)
  then have "wrapped_as s s1 v i \<Longrightarrow> wrapped_as s s2 v i" for v i
    by (rule wrapped_as_later [rotated])
  then show ?thesis
    using assms(1) by (auto simp: expected_def split: option.splits desc.splits if_splits)
qed

lemma wrappable_is_Ref:
  assumes "isFunction s v" and "\<not> wrap_fails s v"
  obtains r where "v = Ref r"
  using assms wrap_fails_WRef by (cases v) auto

lemma wrapped_as_earlier:
  assumes "same_shape s0 s1" and "wrapped_as s1 s' (Ref r) i"
  shows "wrapped_as s0 s' (Ref r) i"
proof -
  obtain ws where "wrappers s1 = wrappers s0 @ ws"
    using assms(1) by (auto simp: same_shape_def)
  then have "length (wrappers s0) \<le> length (wrappers s1)" by simp
  then show ?thesis
    using assms(2) same_shape_fn_name [OF assms(1), of r] same_shape_fn_length [OF assms(1), of r]
    by (simp add: wrapped_as_def)
qed

lemma expected_earlier:
  assumes "same_shape s0 s1" and "expected s1 s' key d d'"
  shows "expected s0 s' key d d'"
proof (cases d)
  case None
  then show ?thesis using assms(2) by (simp add: expected_def)
next
  case (Some dd)
  show ?thesis
  proof (cases dd)
    case (Accessor e c)
    then show ?thesis using assms(2) Some by (simp add: expected_def)
  next
    case (Data v w e c)
    have f: "isFunction s1 v = isFunction s0 v"
      by (rule same_shape_isFunction [OF assms(1)])
    have wf: "wrap_fails s1 v = wrap_fails s0 v"
      by (rule same_shape_wrap_fails [OF assms(1)])
    show ?thesis
    proof (cases "key \<noteq> ''constructor'' \<and> isFunction s0 v \<and> \<not> wrap_fails s0 v \<and> (c \<or> w)")
      case False
      then show ?thesis
        using assms(2) Some Data f wf by (auto simp: expected_def)
    next
      case True
      then obtain r where r: "v = Ref r"
        using wrappable_is_Ref by blast
      from True assms(2) Some Data f wf obtain i where
        "d' = Some (Data (WRef i) w e c)" "wrapped_as s1 s' v i"
        by (auto simp: expected_def)
      then show ?thesis
        using True Some Data r wrapped_as_earlier [OF assms(1)]
        by (auto simp: expected_def)
    qed
  qed
qed

lemma process_keys_effect:
  "same_shape s (process_keys cname p keys s) \<and>
   (\<forall>r. r \<noteq> p \<longrightarrow> cell_at (process_keys cname p keys s) r = cell_at s r) \<and>
   (\<forall>k. k \<notin> set keys \<longrightarrow>
      map_of (props (cell_at (process_keys cname p keys s) p)) k =
      map_of (props (cell_at s p)) k) \<and>
   (distinct keys \<longrightarrow>
      (\<forall>k \<in> set keys.
         expected s (process_keys cname p keys s) k
           (map_of (props (cell_at s p)) k)
           (map_of (props (cell_at (process_keys cname p keys s) p)) k)))"
proof (induction keys arbitrary: s)
  case Nil
  then show ?case by (simp add: same_shape_refl)
next
  case (Cons key keys)
  let ?s1 = "process_key cname p key s"
  let ?s' = "process_keys cname p keys ?s1"
  note step = process_key_effect [where s = s and cname = cname and p = p and key = key]
  note ih = Cons.IH [where s = ?s1]
  have sh: "same_shape s ?s'"
    using step(1) ih same_shape_trans by blast
  have others: "cell_at ?s' r = cell_at s r" if "r \<noteq> p" for r
    using that step(2) ih by simp
  have outside: "map_of (props (cell_at ?s' p)) k = map_of (props (cell_at s p)) k"
    if "k \<notin> set (key # keys)" for k
    using that step(3) [of k] ih by simp
  have inside: "expected s ?s' k (map_of (props (cell_at s p)) k) (map_of (props (cell_at ?s' p)) k)"
    if dist: "distinct (key # keys)" and k: "k \<in> set (key # keys)" for k
  proof (cases "k = key")
    case True
    then have "map_of (props (cell_at ?s' p)) k = map_of (props (cell_at ?s1 p)) k"
      using dist ih by simp
    then show ?thesis
      using True step(4) expected_later [where ?s1.0 = ?s1 and ?s2.0 = ?s'] ih by simp
  next
    case False
    then have "k \<in> set keys" using k by simp
    then have "expected ?s1 ?s' k (map_of (props (cell_at ?s1 p)) k)
                 (map_of (props (cell_at ?s' p)) k)"
      using dist ih by simp
    then have "expected ?s1 ?s' k (map_of (props (cell_at s p)) k)
                 (map_of (props (cell_at ?s' p)) k)"
      using False step(3) [of k] by simp
    then show ?thesis
      using expected_earlier [OF step(1)] by blast
  qed
  show ?case
    using sh others outside inside by simp
qed

lemma process_level_effect:
  shows "same_shape s (process_level cname p s)"
    and "r \<noteq> p \<Longrightarrow> cell_at (process_level cname p s) r = cell_at s r"
    and "expected s (process_level cname p s) k
           (map_of (props (cell_at s p)) k)
           (map_of (props (cell_at (process_level cname p s) p)) k)"
proof -
  let ?keys = "own_keys (props (cell_at s p))"
  note eff = process_keys_effect [where s = s and cname = cname and p = p and keys = ?keys]
  show "same_shape s (process_level cname p s)"
    using eff by (simp add: process_level_def)
  show "r \<noteq> p \<Longrightarrow> cell_at (process_level cname p s) r = cell_at s r"
    using eff by (simp add: process_level_def)
  show "expected s (process_level cname p s) k
           (map_of (props (cell_at s p)) k)
           (map_of (props (cell_at (process_level cname p s) p)) k)"
  proof (cases "k \<in> set ?keys")
    case True
    moreover have "distinct ?keys" by (simp add: own_keys_def)
    ultimately show ?thesis
      using eff by (simp add: process_level_def)
  next
    case False
    then have "map_of (props (cell_at s p)) k = None"
      by (simp add: own_keys_def map_of_eq_None_iff)
    moreover have "map_of (props (cell_at (process_level cname p s) p)) k =
                   map_of (props (cell_at s p)) k"
      using False eff by (simp add: process_level_def)
    ultimately show ?thesis by (simp add: expected_def)
  qed
qed

lemma processPrototype_unfold:
  "processPrototype cname p (s, visited) =
     (if p \<in> set visited then (s, visited)
      else case proto (cell_at (process_level cname p s) p) of
             None \<Rightarrow> (process_level cname p s, visited @ [p])
           | Some q \<Rightarrow>
               if q \<noteq> ObjectPrototype
               then processPrototype cname q (process_level cname p s, visited @ [p])
               else (process_level cname p s, visited @ [p]))"
  by (subst processPrototype.simps)
     (simp add: process_level_def Let_def split: option.split del: processPrototype.simps)

declare processPrototype.simps [simp del]

lemma processPrototype_members:
  assumes "processPrototype cname p (s, vis) = (s', vis')"
  shows "same_shape s s' \<and> set vis \<subseteq> set vis' \<and>
         (\<forall>r. r \<in> set vis \<or> r \<notin> set vis' \<longrightarrow> cell_at s' r = cell_at s r) \<and>
         (\<forall>r k. r \<in> set vis' \<and> r \<notin> set vis \<longrightarrow>
            expected s s' k (map_of (props (cell_at s r)) k) (map_of (props (cell_at s' r)) k))"
  using assms
proof (induction cname p "(s, vis)" arbitrary: s vis s' vis' rule: processPrototype.induct)
  case (1 cname p s visited)
  let ?s1 = "process_level cname p s"
  note lvl = process_level_effect [where s = s and cname = cname and p = p]
  note unf = processPrototype_unfold [of cname p s visited]
  show ?case
  proof (cases "p \<in> set visited")
    case True
    then show ?thesis
      using "1.prems" unf by (simp add: same_shape_refl)
  next
    case fresh: False
    have base: ?thesis if res: "s' = ?s1" "vis' = visited @ [p]"
    proof -
      have "cell_at s' r = cell_at s r" if "r \<in> set visited \<or> r \<notin> set vis'" for r
        using that fresh res lvl(2) [of r] by auto
      moreover have "expected s s' k (map_of (props (cell_at s r)) k)
                       (map_of (props (cell_at s' r)) k)"
        if "r \<in> set vis'" "r \<notin> set visited" for r k
        using that res lvl(3) [of k] by auto
      ultimately show ?thesis
        using res lvl(1) by auto
    qed
    show ?thesis
    proof (cases "proto (cell_at ?s1 p)")
      case None
      then show ?thesis
        using "1.prems" unf fresh base by simp
    next
      case (Some q)
      show ?thesis
      proof (cases "q = ObjectPrototype")
        case True
        then show ?thesis
          using "1.prems" unf fresh Some base by simp
      next
        case False
        have rec: "processPrototype cname q (?s1, visited @ [p]) = (s', vis')"
          using "1.prems" unf fresh Some False by simp
        note ih = "1.hyps" [OF fresh _ _ False rec, unfolded process_level_def [symmetric],
            OF refl Some]
        have sh: "same_shape s s'"
          using lvl(1) ih same_shape_trans by blast
        have sub: "set visited \<subseteq> set vis'"
          using ih by auto
        have pin: "p \<in> set vis'"
          using ih by auto
        have untouched: "cell_at s' r = cell_at s r" if "r \<in> set visited \<or> r \<notin> set vis'" for r
        proof -
          have "r \<noteq> p" using that fresh pin by auto
          moreover have "cell_at s' r = cell_at ?s1 r"
            using that ih by auto
          ultimately show ?thesis using lvl(2) [of r] by simp
        qed
        have new: "expected s s' k (map_of (props (cell_at s r)) k)
                       (map_of (props (cell_at s' r)) k)"
          if "r \<in> set vis'" "r \<notin> set visited" for r k
        proof (cases "r = p")
          case True
          have "cell_at s' p = cell_at ?s1 p"
            using ih by simp
          then show ?thesis
            using True lvl(3) [of k] expected_later [where ?s1.0 = ?s1 and ?s2.0 = s'] ih
            by simp
        next
          case False
          then have "expected ?s1 s' k (map_of (props (cell_at ?s1 r)) k)
                       (map_of (props (cell_at s' r)) k)"
            using that ih by simp
          then show ?thesis
            using False lvl(2) [of r] expected_earlier [OF lvl(1)] by simp
        qed
        show ?thesis
          using sh sub untouched new by blast
      qed
    qed
  qed
qed

lemma same_shape_proto: "same_shape s s' \<Longrightarrow> proto (cell_at s' r) = proto (cell_at s r)"
  by (simp add: same_shape_def)

lemma ancestor_prepend:
  assumes "ancestor s q r" and "proto (cell_at s p) = Some q" and "q \<noteq> ObjectPrototype"
  shows "ancestor s p r"
  using assms
proof (induction rule: ancestor.induct)
  case start
  then show ?case by (blast intro: ancestor.intros)
next
  case (step a b)
  then show ?case by (blast intro: ancestor.intros)
qed

lemma ancestor_same_shape:
  assumes "same_shape s s'" and "ancestor s' p r"
  shows "ancestor s p r"
  using assms(2)
proof (induction rule: ancestor.induct)
  case start
  then show ?case by (rule ancestor.start)
next
  case (step a b)
  then show ?case
    using same_shape_proto [OF assms(1), of a] by (auto intro: ancestor.step)
qed

lemma ancestor_not_base:
  assumes "ancestor s p r" and "p \<noteq> ObjectPrototype"
  shows "r \<noteq> ObjectPrototype"
  using assms by (induction rule: ancestor.induct) auto

lemma processPrototype_levels:
  assumes "processPrototype cname p (s, vis) = (s', vis')"
  shows "(distinct vis \<longrightarrow> distinct vis') \<and>
         (\<forall>r. r \<in> set vis' \<and> r \<notin> set vis \<longrightarrow> ancestor s p r)"
  using assms
proof (induction cname p "(s, vis)" arbitrary: s vis s' vis' rule: processPrototype.induct)
  case (1 cname p s visited)
  let ?s1 = "process_level cname p s"
  note lvl = process_level_effect [where s = s and cname = cname and p = p]
  note unf = processPrototype_unfold [of cname p s visited]
  show ?case
  proof (cases "p \<in> set visited")
    case True
    then show ?thesis
      using "1.prems" unf by simp
  next
    case fresh: False
    have base: ?thesis if res: "vis' = visited @ [p]"
      using res fresh by (auto intro: ancestor.start)
    show ?thesis
    proof (cases "proto (cell_at ?s1 p)")
      case None
      then show ?thesis
        using "1.prems" unf fresh base by simp
    next
      case (Some q)
      show ?thesis
      proof (cases "q = ObjectPrototype")
        case True
        then show ?thesis
          using "1.prems" unf fresh Some base by simp
      next
        case False
        have rec: "processPrototype cname q (?s1, visited @ [p]) = (s', vis')"
          using "1.prems" unf fresh Some False by simp
        note ih = "1.hyps" [OF fresh _ _ False rec, unfolded process_level_def [symmetric],
            OF refl Some]
        have link: "proto (cell_at s p) = Some q"
          using Some same_shape_proto [OF lvl(1), of p] by simp
        have dist: "distinct vis'" if "distinct visited"
          using that fresh ih by simp
        have anc: "ancestor s p r" if "r \<in> set vis'" "r \<notin> set visited" for r
        proof (cases "r = p")
          case True
          then show ?thesis by (simp add: ancestor.start)
        next
          case False
          then have "ancestor ?s1 q r"
            using that ih by simp
          then have "ancestor s q r"
            by (rule ancestor_same_shape [OF lvl(1)])
          then show ?thesis
            using link \<open>q \<noteq> ObjectPrototype\<close> by (rule ancestor_prepend)
        qed
        show ?thesis
          using dist anc by blast
      qed
    qed
  qed
qed

lemma processPrototype_closed:
  assumes "processPrototype cname p (s, vis) = (s', vis')"
    and "\<forall>a \<in> set vis. \<forall>b. proto (cell_at s a) = Some b \<and> b \<noteq> ObjectPrototype
           \<longrightarrow> b \<in> set vis \<or> b = p"
  shows "p \<in> set vis' \<and>
         (\<forall>a \<in> set vis'. \<forall>b. proto (cell_at s a) = Some b \<and> b \<noteq> ObjectPrototype
            \<longrightarrow> b \<in> set vis')"
  using assms
proof (induction cname p "(s, vis)" arbitrary: s vis s' vis' rule: processPrototype.induct)
  case (1 cname p s visited)
  let ?s1 = "process_level cname p s"
  note lvl = process_level_effect [where s = s and cname = cname and p = p]
  note unf = processPrototype_unfold [of cname p s visited]
  note closed = "1.prems"(2)
  have same: "proto (cell_at ?s1 r) = proto (cell_at s r)" for r
    by (rule same_shape_proto [OF lvl(1)])
  show ?case
  proof (cases "p \<in> set visited")
    case True
    then show ?thesis
      using "1.prems" unf by auto
  next
    case fresh: False
    have base: ?thesis
      if res: "vis' = visited @ [p]"
        and stop: "\<forall>b. proto (cell_at s p) = Some b \<longrightarrow> b = ObjectPrototype"
      using res stop closed by auto
    show ?thesis
    proof (cases "proto (cell_at ?s1 p)")
      case None
      then have "vis' = visited @ [p]"
        using "1.prems"(1) unf fresh by simp
      moreover have "\<forall>b. proto (cell_at s p) = Some b \<longrightarrow> b = ObjectPrototype"
        using None same [of p] by simp
      ultimately show ?thesis by (rule base)
    next
      case (Some q)
      show ?thesis
      proof (cases "q = ObjectPrototype")
        case True
        then have "vis' = visited @ [p]"
          using "1.prems"(1) unf fresh Some by simp
        moreover have "\<forall>b. proto (cell_at s p) = Some b \<longrightarrow> b = ObjectPrototype"
          using True Some same [of p] by simp
        ultimately show ?thesis by (rule base)
      next
        case False
        have rec: "processPrototype cname q (?s1, visited @ [p]) = (s', vis')"
          using "1.prems"(1) unf fresh Some False by simp
        have pre: "\<forall>a \<in> set (visited @ [p]). \<forall>b.
                     proto (cell_at ?s1 a) = Some b \<and> b \<noteq> ObjectPrototype
                     \<longrightarrow> b \<in> set (visited @ [p]) \<or> b = q"
          using closed Some same by auto
        note ih = "1.hyps" [OF fresh _ _ False rec, unfolded process_level_def [symmetric],
            OF refl Some pre]
        have sub: "set (visited @ [p]) \<subseteq> set vis'"
          using processPrototype_members [OF rec] by blast
        show ?thesis
          using ih sub same by auto
      qed
    qed
  qed
qed

lemma processPrototype_ancestors:
  assumes "processPrototype cname p (s, []) = (s', vis')"
  shows "set vis' = {r. ancestor s p r}"
proof -
  have sound: "ancestor s p r" if "r \<in> set vis'" for r
    using that processPrototype_levels [OF assms] by simp
  have closed: "p \<in> set vis' \<and>
         (\<forall>a \<in> set vis'. \<forall>b. proto (cell_at s a) = Some b \<and> b \<noteq> ObjectPrototype
            \<longrightarrow> b \<in> set vis')"
    using processPrototype_closed [OF assms] by simp
  have complete: "r \<in> set vis'" if "ancestor s p r" for r
    using that closed by (induction rule: ancestor.induct) auto
  show ?thesis
    using sound complete by blast
qed

lemma process_keys_constructor_only:
  assumes "\<forall>k \<in> set keys. k = ''constructor''"
  shows "process_keys cname p keys s = s"
  using assms by (induction keys) (simp_all add: process_key_def)

subsection \<open>The entry point\<close>

text \<open>
  Claim C7. The entry point returns \<open>null\<close> for \<open>null\<close> and \<open>undefined\<close> for
  \<open>undefined\<close>, changing nothing; applied to any other value that is not callable, for
  example the number 42, it throws a \<open>TypeError\<close>.
\<close>

theorem C7_entry_point_pass_through:
  assumes "v \<noteq> Null" and "v \<noteq> Undefined" and "\<not> isFunction s v"
  shows "catchAsync s Null = (Normal Null, s) \<and>
         catchAsync s Undefined = (Normal Undefined, s) \<and>
         catchAsync s v =
           (Throw (Err ''TypeError'' ''Target must be a function or a class constructor''), s)"
  using assms by (simp add: catchAsync_def)

theorem C7_entry_point_pass_through_witness:
  "Num 42 \<noteq> Null \<and> Num 42 \<noteq> Undefined \<and> \<not> isFunction host (Num 42) \<and>
   catchAsync host Null = (Normal Null, host) \<and>
   catchAsync host Undefined = (Normal Undefined, host) \<and>
   catchAsync host (Num 42) =
     (Throw (Err ''TypeError'' ''Target must be a function or a class constructor''), host)"
  using C7_entry_point_pass_through [of "Num 42" host] by simp

subsection \<open>Length and name of a wrapper\<close>

text \<open>
  Claim C8 as stated, that the name of \<open>wrap(f)\<close> is the name of \<open>f\<close> after a fixed
  prefix, fails for a function without a name: the method \<open>derivedMethod\<close> is wrapped as
  \<open>wrapped_derivedMethod\<close>, so that the prefix is \<open>wrapped_\<close>, but the anonymous
  function at reference 7 is wrapped as \<open>wrapped_handler\<close>.
\<close>

theorem C8_anonymous_name_counterexample:
  "fn_name app (Ref 4) = ''derivedMethod'' \<and>
   fst (wrapHandler app (Ref 4)) = Normal (WRef 0) \<and>
   wname (wrappers (snd (wrapHandler app (Ref 4))) ! 0) = ''wrapped_'' @ ''derivedMethod'' \<and>
   isFunction app (Ref 7) \<and> fn_name app (Ref 7) = [] \<and>
   fst (wrapHandler app (Ref 7)) = Normal (WRef 0) \<and>
   wname (wrappers (snd (wrapHandler app (Ref 7))) ! 0) = ''wrapped_handler'' \<and>
   wname (wrappers (snd (wrapHandler app (Ref 7))) ! 0) \<noteq> ''wrapped_'' @ fn_name app (Ref 7)"
  by code_simp

text \<open>
  Claim C8, amended. For every callable \<open>f\<close> for which \<open>wrap(f)\<close> returns, the result is
  a new function whose length is the length of \<open>f\<close> and whose name is \<open>wrapped_\<close>
  followed by the name of \<open>f\<close>, or by \<open>handler\<close> when \<open>f\<close> has an empty name.
\<close>

theorem C8_wrapper_length_and_name:
  assumes "isFunction s f" and "fst (wrapHandler s f) = Normal r"
  shows "\<exists>i. r = WRef i \<and> i < length (wrappers (snd (wrapHandler s f))) \<and>
           wlength (wrappers (snd (wrapHandler s f)) ! i) = fn_length s f \<and>
           wname (wrappers (snd (wrapHandler s f)) ! i) =
             ''wrapped_'' @ (if fn_name s f = [] then ''handler'' else fn_name s f)"
  using assms
  by (auto simp: wrapHandler_def Let_def split: sum.splits)

theorem C8_wrapper_length_and_name_witness:
  "isFunction app (Ref 4) \<and> fst (wrapHandler app (Ref 4)) = Normal (WRef 0) \<and>
   (\<exists>i. WRef 0 = WRef i \<and> i < length (wrappers (snd (wrapHandler app (Ref 4)))) \<and>
      wlength (wrappers (snd (wrapHandler app (Ref 4))) ! i) = 3 \<and>
      wname (wrappers (snd (wrapHandler app (Ref 4))) ! i) = ''wrapped_derivedMethod'')"
proof -
  have h1: "isFunction app (Ref 4)" by (simp add: app_def cell_at_def)
  have h2: "fst (wrapHandler app (Ref 4)) = Normal (WRef 0)" by code_simp
  have n: "fn_name app (Ref 4) = ''derivedMethod''" "fn_length app (Ref 4) = 3"
    by (simp_all add: app_def cell_at_def)
  show ?thesis
    using h1 h2 n C8_wrapper_length_and_name [OF h1 h2] by simp
qed

subsection \<open>An ordinary function as the target\<close>

text \<open>
  Claim C10. A function whose \<open>prototype\<close> is a plain object with no own member other
  than \<open>constructor\<close> and with the parent \<open>Object.prototype\<close> (every function written
  with the \<open>function\<close> keyword is born so) passes the test for a class and is handed to
  \<open>wrapControllerClass\<close>: the entry point returns the same function, and the heap and
  the console are as before, so that nothing has been wrapped.
\<close>

theorem C10_plain_function_returned_unwrapped:
  assumes "fn (cell_at s f) \<noteq> None"
    and "map_of (props (cell_at s f)) ''prototype'' = Some (Data (Ref p) w e c)"
    and "fn (cell_at s p) = None"
    and "set (map fst (props (cell_at s p))) \<subseteq> {''constructor''}"
    and "proto (cell_at s p) = Some ObjectPrototype"
  shows "isFunction s (Ref f) \<and> truthy (prototype_of s (Ref f)) \<and>
         typeof s (prototype_of s (Ref f)) = ''object'' \<and>
         wrapControllerClass s (Ref f) = (Ref f, s) \<and>
         catchAsync s (Ref f) = (Normal (Ref f), s)"
proof -
  have "\<forall>k \<in> set (own_keys (props (cell_at s p))). k = ''constructor''"
    using assms(4) by (auto simp: own_keys_def)
  then have keys: "process_level cname p s = s" for cname
    unfolding process_level_def by (rule process_keys_constructor_only)
  have "processPrototype cname p (s, []) = (s, [p])" for cname
    using assms(5) by (subst processPrototype_unfold) (simp add: keys)
  then show ?thesis
    using assms by (simp add: catchAsync_def wrapControllerClass_def)
qed

theorem C10_plain_function_returned_unwrapped_witness:
  "fn (cell_at app 8) \<noteq> None \<and>
   map_of (props (cell_at app 8)) ''prototype'' = Some (Data (Ref 9) True False False) \<and>
   fn (cell_at app 9) = None \<and>
   map fst (props (cell_at app 9)) = [''constructor''] \<and>
   proto (cell_at app 9) = Some ObjectPrototype \<and>
   wrapControllerClass app (Ref 8) = (Ref 8, app) \<and>
   catchAsync app (Ref 8) = (Normal (Ref 8), app)"
proof -
  have h1: "fn (cell_at app 8) \<noteq> None" by (simp add: app_def cell_at_def)
  have h2: "map_of (props (cell_at app 8)) ''prototype'' = Some (Data (Ref 9) True False False)"
    by (simp add: app_def cell_at_def)
  have h3: "fn (cell_at app 9) = None" by (simp add: app_def cell_at_def)
  have k: "map fst (props (cell_at app 9)) = [''constructor'']"
    by (simp add: app_def cell_at_def)
  then have h4: "set (map fst (props (cell_at app 9))) \<subseteq> {''constructor''}" by simp
  have h5: "proto (cell_at app 9) = Some ObjectPrototype"
    by (simp add: app_def cell_at_def ObjectPrototype_def)
  show ?thesis
    using h1 h2 h3 k h5 C10_plain_function_returned_unwrapped [OF h1 h2 h3 h4 h5] by simp
qed

subsection \<open>The traversal of the prototype chain\<close>

text \<open>
  What holds of the traversal for every heap, cyclic prototype links included: it
  terminates (\<open>processPrototype\<close> is a total function, its termination is proved with
  its definition), and the levels it processes are, each exactly once, the prototype
  object of the class and the parents reached from it before \<open>null\<close>,
  \<open>Object.prototype\<close> or a level already processed. When the prototype object of the
  class is not \<open>Object.prototype\<close>, that level is not processed and its cell is as
  before.
\<close>

lemma traversal_levels:
  "distinct (snd (processPrototype cname p (s, []))) \<and>
   set (snd (processPrototype cname p (s, []))) = {r. ancestor s p r} \<and>
   (p \<noteq> ObjectPrototype \<longrightarrow>
      ObjectPrototype \<notin> set (snd (processPrototype cname p (s, []))) \<and>
      cell_at (fst (processPrototype cname p (s, []))) ObjectPrototype =
        cell_at s ObjectPrototype)"
proof -
  obtain s' vis' where run: "processPrototype cname p (s, []) = (s', vis')"
    by (cases "processPrototype cname p (s, [])")
  have "distinct vis'"
    using processPrototype_levels [OF run] by simp
  moreover have levels: "set vis' = {r. ancestor s p r}"
    by (rule processPrototype_ancestors [OF run])
  moreover have out: "ObjectPrototype \<notin> set vis'" if "p \<noteq> ObjectPrototype"
    using that levels ancestor_not_base by blast
  moreover have "cell_at s' ObjectPrototype = cell_at s ObjectPrototype"
    if "p \<noteq> ObjectPrototype"
    using out [OF that] processPrototype_members [OF run] by blast
  ultimately show ?thesis
    by (simp add: run)
qed

text \<open>
  Claim C5 says that the traversal never processes \<open>Object.prototype\<close>. The code tests
  for \<open>Object.prototype\<close> where it steps to a parent (source lines 240--241) and not
  where it starts (line 245). For a class whose own prototype object is
  \<open>Object.prototype\<close>, such as the constructor \<open>Object\<close>, that level is processed
  and its method \<open>toString\<close> is replaced by a wrapper.
\<close>

theorem C5_base_level_processed:
  "isFunction builtins (Ref 2) \<and>
   prototype_of builtins (Ref 2) = Ref ObjectPrototype \<and>
   snd (processPrototype ''Object'' ObjectPrototype (builtins, [])) = [ObjectPrototype] \<and>
   map_of (props (cell_at builtins ObjectPrototype)) ''toString'' =
     Some (Data (Ref 1) True False True) \<and>
   map_of (props (cell_at (snd (catchAsync builtins (Ref 2))) ObjectPrototype)) ''toString'' =
     Some (Data (WRef 0) True False True)"
  by code_simp

subsection \<open>The members of a class after wrapping\<close>

text \<open>
  Claim C6. After \<open>wrapControllerClass\<close>, at every level of the class (its prototype
  object and the parents below \<open>Object.prototype\<close>), every own data property other than
  \<open>constructor\<close> whose value is callable holds a wrapper created in this run for the
  value it had before, with that function's length and prefixed name, and with the
  attributes of the property unchanged, unless wrapping that member fails (\<open>wrapHandler\<close>
  throws, or the property is neither writable nor configurable): then the property is as
  before. The outcome for one member does not depend on the others. The member
  \<open>constructor\<close>, accessors and values that are not callable are as before.
\<close>

theorem C6_members_wrapped:
  assumes "isFunction s ctor"
    and "prototype_of s ctor = Ref start"
    and "ancestor s start p"
  shows "case map_of (props (cell_at s p)) key of
           Some (Data v w e c) \<Rightarrow>
             if key \<noteq> ''constructor'' \<and> isFunction s v then
               if \<not> wrap_fails s v \<and> (c \<or> w)
               then \<exists>i. map_of (props (cell_at (snd (wrapControllerClass s ctor)) p)) key =
                          Some (Data (WRef i) w e c) \<and>
                        length (wrappers s) \<le> i \<and>
                        i < length (wrappers (snd (wrapControllerClass s ctor))) \<and>
                        worig (wrappers (snd (wrapControllerClass s ctor)) ! i) = v \<and>
                        wname (wrappers (snd (wrapControllerClass s ctor)) ! i) =
                          ''wrapped_'' @ (if fn_name s v = [] then ''handler'' else fn_name s v) \<and>
                        wlength (wrappers (snd (wrapControllerClass s ctor)) ! i) = fn_length s v
               else map_of (props (cell_at (snd (wrapControllerClass s ctor)) p)) key =
                      Some (Data v w e c)
             else map_of (props (cell_at (snd (wrapControllerClass s ctor)) p)) key =
                    Some (Data v w e c)
         | d \<Rightarrow> map_of (props (cell_at (snd (wrapControllerClass s ctor)) p)) key = d"
proof -
  let ?cname = "if fn_name s ctor = [] then ''anonymous'' else fn_name s ctor"
  obtain s' vis' where run: "processPrototype ?cname start (s, []) = (s', vis')"
    by (cases "processPrototype ?cname start (s, [])")
  have s': "snd (wrapControllerClass s ctor) = s'"
    using assms(1,2) run by (simp add: wrapControllerClass_def)
  have "p \<in> set vis'"
    using assms(3) processPrototype_ancestors [OF run] by simp
  then have "expected s s' key (map_of (props (cell_at s p)) key)
               (map_of (props (cell_at s' p)) key)"
    using processPrototype_members [OF run] by simp
  then show ?thesis
    unfolding s'
    by (auto simp: expected_def wrapped_as_def split: option.splits desc.splits)
qed

theorem C6_members_wrapped_witness:
  "isFunction app (Ref 2) \<and> prototype_of app (Ref 2) = Ref 3 \<and> ancestor app 3 5 \<and>
   (\<exists>i. map_of (props (cell_at (snd (wrapControllerClass app (Ref 2))) 5)) ''baseMethod'' =
           Some (Data (WRef i) True False True) \<and>
        length (wrappers app) \<le> i \<and>
        i < length (wrappers (snd (wrapControllerClass app (Ref 2)))) \<and>
        worig (wrappers (snd (wrapControllerClass app (Ref 2))) ! i) = Ref 7 \<and>
        wname (wrappers (snd (wrapControllerClass app (Ref 2))) ! i) = ''wrapped_handler'' \<and>
        wlength (wrappers (snd (wrapControllerClass app (Ref 2))) ! i) = 3) \<and>
   map_of (props (cell_at (snd (wrapControllerClass app (Ref 2))) 5)) ''legacy'' =
     Some (Data (Ref 8) True False True) \<and>
   map_of (props (cell_at (snd (wrapControllerClass app (Ref 2))) 5)) ''pinned'' =
     Some (Data (Ref 7) False False False)"
proof -
  have h1: "isFunction app (Ref 2)" by (simp add: app_def cell_at_def)
  have h2: "prototype_of app (Ref 2) = Ref 3" by (simp add: app_def cell_at_def)
  have h3: "ancestor app 3 5"
    by (rule ancestor.step [OF ancestor.start])
       (simp_all add: app_def cell_at_def ObjectPrototype_def)
  have m1: "map_of (props (cell_at app 5)) ''baseMethod'' = Some (Data (Ref 7) True False True)"
    by (simp add: app_def cell_at_def)
  have m2: "map_of (props (cell_at app 5)) ''legacy'' = Some (Data (Ref 8) True False True)"
    by (simp add: app_def cell_at_def)
  have m3: "map_of (props (cell_at app 5)) ''pinned'' = Some (Data (Ref 7) False False False)"
    by (simp add: app_def cell_at_def)
  have f1: "isFunction app (Ref 7)" "isFunction app (Ref 8)"
    by (simp_all add: app_def cell_at_def)
  have w1: "\<not> wrap_fails app (Ref 7)" by code_simp
  have w2: "wrap_fails app (Ref 8)" by code_simp
  have n1: "fn_name app (Ref 7) = []" "fn_length app (Ref 7) = 3"
    by (simp_all add: app_def cell_at_def)
  have c1: "\<exists>i. map_of (props (cell_at (snd (wrapControllerClass app (Ref 2))) 5)) ''baseMethod'' =
           Some (Data (WRef i) True False True) \<and>
        length (wrappers app) \<le> i \<and>
        i < length (wrappers (snd (wrapControllerClass app (Ref 2)))) \<and>
        worig (wrappers (snd (wrapControllerClass app (Ref 2))) ! i) = Ref 7 \<and>
        wname (wrappers (snd (wrapControllerClass app (Ref 2))) ! i) = ''wrapped_handler'' \<and>
        wlength (wrappers (snd (wrapControllerClass app (Ref 2))) ! i) = 3"
    using C6_members_wrapped [OF h1 h2 h3, of "''baseMethod''"] m1 f1 w1 n1 by simp
  have c2: "map_of (props (cell_at (snd (wrapControllerClass app (Ref 2))) 5)) ''legacy'' =
     Some (Data (Ref 8) True False True)"
    using C6_members_wrapped [OF h1 h2 h3, of "''legacy''"] m2 f1 w2 by simp
  have c3: "map_of (props (cell_at (snd (wrapControllerClass app (Ref 2))) 5)) ''pinned'' =
     Some (Data (Ref 7) False False False)"
    using C6_members_wrapped [OF h1 h2 h3, of "''pinned''"] m3 f1 by simp
  show ?thesis
    using h1 h2 h3 c1 c2 c3 by blast
qed

end
